theory Spec2Isabelle
  imports Main "HOL-Library.AList" "HOL-Library.Sublist" "HOL-Library.List_Lexorder"
begin

section \<open>The CNF model of dpll.py and dp.py\<close>

text \<open>
  The parsers create the symbols \<^verbatim>\<open>f"x{i}"\<close> for the variable numbers \<open>i\<close> of the
  preamble, and every sort of a symbol list uses the key \<^verbatim>\<open>int(s[1:])\<close>, the number
  after the letter. The model identifies the symbol \<^verbatim>\<open>x<i>\<close> with the number \<open>i\<close>;
  the sort key of a symbol is then the symbol itself.

  \<^verbatim>\<open>Clause.symbols\<close> is a \<^verbatim>\<open>dict\<close> from symbol to sign. A dict iterates in insertion
  order, so a clause is an association list in that order; \<open>AList.update\<close> is the
  dict's item assignment (an existing key keeps its place, a new key goes to the end).
  The keys of a dict are distinct: \<open>dict_inv\<close>.

  An assignment is such a dict too; \<open>map_of\<close> reads it: \<^verbatim>\<open>symbol in assignment\<close>
  is \<open>map_of assignment symbol \<noteq> None\<close> and \<^verbatim>\<open>assignment[symbol]\<close> is the value under
  \<open>Some\<close>.
\<close>

type_synonym symbol = nat

type_synonym clause = "(symbol \<times> int) list"

type_synonym assignment = "(symbol \<times> int) list"

record SatInstance =
  symbols :: "symbol list"
  clauses :: "clause list"

definition dict_inv :: "clause \<Rightarrow> bool" where
  "dict_inv c = distinct (map fst c)"

text \<open>\<^verbatim>\<open>sorted(list(set().union(*(c.symbols for c in cs))), key=lambda s: int(s[1:]))\<close>\<close>

definition sorted_symbols :: "clause list \<Rightarrow> symbol list" where
  "sorted_symbols cs = sorted_list_of_set (\<Union>c \<in> set cs. fst ` set c)"

subsection \<open>is_satisfied\<close>

text \<open>The inner loop of \<^verbatim>\<open>is_satisfied\<close>: the flag \<^verbatim>\<open>satisfied\<close> after the loop.\<close>

fun clause_satisfied :: "assignment \<Rightarrow> clause \<Rightarrow> bool" where
  "clause_satisfied assignment [] = False"
| "clause_satisfied assignment ((symbol, sign) # items) =
     (if map_of assignment symbol \<noteq> None \<and> map_of assignment symbol = Some sign then True
      else clause_satisfied assignment items)"

fun all_satisfied :: "assignment \<Rightarrow> clause list \<Rightarrow> bool" where
  "all_satisfied assignment [] = True"
| "all_satisfied assignment (clause # cs) =
     (if \<not> clause_satisfied assignment clause then False
      else all_satisfied assignment cs)"

definition is_satisfied :: "SatInstance \<Rightarrow> assignment \<Rightarrow> bool" where
  "is_satisfied instance assignment = all_satisfied assignment (clauses instance)"

subsection \<open>find_unit_clause\<close>

text \<open>
  The first clause with exactly one symbol, as the one-entry dict \<^verbatim>\<open>{symbol: sign}\<close>,
  here the entry itself.
\<close>

fun find_unit :: "clause list \<Rightarrow> (symbol \<times> int) option" where
  "find_unit [] = None"
| "find_unit (clause # cs) =
     (if length clause = 1 then Some (hd clause) else find_unit cs)"

definition find_unit_clause :: "SatInstance \<Rightarrow> (symbol \<times> int) option" where
  "find_unit_clause instance = find_unit (clauses instance)"

subsection \<open>simplify\<close>

text \<open>
  The inner loop of \<^verbatim>\<open>simplify\<close> over the items of one clause, with its \<^verbatim>\<open>break\<close>:
  the result is the pair \<^verbatim>\<open>(satisfied, new_symbols)\<close> after the loop.
\<close>

fun simplify_clause :: "assignment \<Rightarrow> clause \<Rightarrow> clause \<Rightarrow> bool \<times> clause" where
  "simplify_clause assignment [] new_symbols = (False, new_symbols)"
| "simplify_clause assignment ((symbol, sign) # items) new_symbols =
     (if map_of assignment symbol \<noteq> None then
        (if map_of assignment symbol = Some sign then (True, new_symbols)
         else simplify_clause assignment items new_symbols)
      else simplify_clause assignment items (AList.update symbol sign new_symbols))"

text \<open>
  The outer loop: \<open>None\<close> is the \<^verbatim>\<open>return None\<close> at the first clause that is not
  satisfied and has no symbol left.
\<close>

fun simplify_clauses :: "assignment \<Rightarrow> clause list \<Rightarrow> clause list \<Rightarrow> clause list option" where
  "simplify_clauses assignment [] new_clauses = Some new_clauses"
| "simplify_clauses assignment (clause # cs) new_clauses =
     (case simplify_clause assignment clause [] of
        (True, new_symbols) \<Rightarrow> simplify_clauses assignment cs new_clauses
      | (False, new_symbols) \<Rightarrow>
          if new_symbols = [] then None
          else simplify_clauses assignment cs (new_clauses @ [new_symbols]))"

definition simplify :: "SatInstance \<Rightarrow> assignment \<Rightarrow> SatInstance option" where
  "simplify instance assignment =
     (case simplify_clauses assignment (clauses instance) [] of
        None \<Rightarrow> None
      | Some new_clauses \<Rightarrow>
          Some \<lparr>symbols = (if new_clauses \<noteq> [] then sorted_symbols new_clauses else []),
                clauses = new_clauses\<rparr>)"

subsection \<open>simplify, in the words of its specification\<close>

definition matches :: "assignment \<Rightarrow> clause \<Rightarrow> bool" where
  "matches assignment c = (\<exists>(s, sg) \<in> set c. map_of assignment s = Some sg)"

definition reduce :: "assignment \<Rightarrow> clause \<Rightarrow> clause" where
  "reduce assignment c = filter (\<lambda>(s, sg). s \<notin> dom (map_of assignment)) c"

definition survivors :: "assignment \<Rightarrow> clause list \<Rightarrow> clause list" where
  "survivors assignment cs = filter (\<lambda>c. \<not> matches assignment c) cs"

definition simplify_spec :: "SatInstance \<Rightarrow> assignment \<Rightarrow> SatInstance option" where
  "simplify_spec instance assignment =
     (if \<exists>c \<in> set (clauses instance). \<not> matches assignment c \<and> reduce assignment c = []
      then None
      else Some \<lparr>symbols = sorted_symbols (map (reduce assignment) (survivors assignment (clauses instance))),
                 clauses = map (reduce assignment) (survivors assignment (clauses instance))\<rparr>)"

subsection \<open>What the termination proofs need of simplify\<close>

lemma sorted_symbols_Nil: "sorted_symbols [] = []"
  by (simp add: sorted_symbols_def)

lemma matches_Nil: "\<not> matches a []"
  by (simp add: matches_def)

lemma matches_Cons: "matches a ((s, sg) # c) = (map_of a s = Some sg \<or> matches a c)"
  by (simp add: matches_def)

lemma simplify_clause_fst: "fst (simplify_clause a c new) = matches a c"
proof (induction c arbitrary: new)
  case Nil
  then show ?case by (simp add: matches_Nil)
next
  case (Cons p c)
  obtain s sg where p: "p = (s, sg)" by (cases p)
  show ?case using Cons.IH by (cases "map_of a s") (simp_all add: p matches_Cons)
qed

section \<open>The DPLL solver of dpll.py\<close>

text \<open>
  The exceptions of the model. \<open>AttributeError\<close> is what \<^verbatim>\<open>solve_dpll(None, ...)\<close> raises
  at \<^verbatim>\<open>instance.find_unit_clause()\<close>; \<open>KeyError\<close> is a failed dict lookup; a
  \<open>ValueError\<close> carries what its message says: \<^verbatim>\<open>"Invalid DIMACS preamble"\<close>,
  \<^verbatim>\<open>f"Literal {literal} refers to an undefined variable"\<close> with the literal, or the
  message of \<^verbatim>\<open>int()\<close> with the string it could not read.
\<close>

datatype value_error = Invalid_preamble | Undefined_variable int | Invalid_literal string

datatype error = AttributeError | KeyError symbol | ValueError value_error

subsection \<open>Termination measure: the number of literals\<close>

definition weight :: "clause list \<Rightarrow> nat" where
  "weight cs = sum_list (map length cs)"

lemma simplify_clause_length:
  "length (snd (simplify_clause a c new)) \<le> length new + length (reduce a c)"
proof (induction c arbitrary: new)
  case Nil
  then show ?case by (simp add: reduce_def)
next
  case (Cons p c)
  obtain s sg where p: "p = (s, sg)" by (cases p)
  have upd: "length (AList.update s sg new) \<le> Suc (length new)"
    by (induction new) auto
  show ?case
  proof (cases "map_of a s")
    case None
    have "length (snd (simplify_clause a c (AList.update s sg new)))
        \<le> length (AList.update s sg new) + length (reduce a c)"
      by (rule Cons.IH)
    then show ?thesis using None upd by (simp add: p reduce_def dom_def)
  next
    case (Some v)
    have "length (snd (simplify_clause a c new)) \<le> length new + length (reduce a c)"
      by (rule Cons.IH)
    then show ?thesis using Some by (simp add: p reduce_def dom_def)
  qed
qed

definition residue :: "assignment \<Rightarrow> clause list \<Rightarrow> nat" where
  "residue a cs = sum_list (map (\<lambda>c. if matches a c then 0 else length (reduce a c)) cs)"

lemma simplify_clauses_weight:
  "simplify_clauses a cs acc = Some ncs \<Longrightarrow> weight ncs \<le> weight acc + residue a cs"
proof (induction cs arbitrary: acc)
  case Nil
  then show ?case by (simp add: residue_def)
next
  case (Cons c cs)
  obtain sat new where sc: "simplify_clause a c [] = (sat, new)"
    by (cases "simplify_clause a c []")
  have sat: "sat = matches a c" using simplify_clause_fst[of a c "[]"] sc by simp
  have len: "length new \<le> length (reduce a c)"
    using simplify_clause_length[of a c "[]"] sc by simp
  show ?case
  proof (cases sat)
    case True
    then have "simplify_clauses a cs acc = Some ncs" using Cons.prems sc by simp
    from Cons.IH[OF this] show ?thesis using True sat by (simp add: residue_def)
  next
    case False
    then have "simplify_clauses a cs (acc @ [new]) = Some ncs"
      using Cons.prems sc by (simp split: if_splits)
    from Cons.IH[OF this] show ?thesis using False sat len
      by (simp add: residue_def weight_def)
  qed
qed

lemma residue_clause_le: "(if matches a c then 0 else length (reduce a c)) \<le> length c"
  by (simp add: reduce_def)

lemma residue_le: "residue a cs \<le> weight cs"
proof (induction cs)
  case Nil
  then show ?case by (simp add: residue_def weight_def)
next
  case (Cons c cs)
  then show ?case using residue_clause_le[of a c]
    by (simp add: residue_def weight_def del: length_filter_le)
qed

lemma residue_less:
  assumes "c \<in> set cs" "(s, sg) \<in> set c" "map_of a s \<noteq> None"
  shows "residue a cs < weight cs"
  using assms(1)
proof (induction cs)
  case Nil
  then show ?case by simp
next
  case (Cons d cs)
  have dle: "(if matches a d then 0 else length (reduce a d)) \<le> length d"
    by (simp add: reduce_def)
  show ?case
  proof (cases "c = d")
    case True
    have "length (reduce a c) < length c"
      unfolding reduce_def using assms(2,3)
      by (intro length_filter_less[of "(s, sg)"]) (auto simp: dom_def)
    moreover have "0 < length c" using assms(2) by (cases c) auto
    ultimately have "(if matches a d then 0 else length (reduce a d)) < length d"
      using True by simp
    then show ?thesis using residue_le[of a cs] by (simp add: residue_def weight_def)
  next
    case False
    then have "residue a cs < weight cs" using Cons by simp
    then show ?thesis using dle by (simp add: residue_def weight_def)
  qed
qed

lemma simplify_weight_le:
  "simplify instance a = Some instance' \<Longrightarrow> weight (clauses instance') \<le> weight (clauses instance)"
  using simplify_clauses_weight[of a "clauses instance" "[]"] residue_le[of a "clauses instance"]
  by (auto simp: simplify_def weight_def split: option.splits)

lemma simplify_weight_less:
  "simplify instance a = Some instance' \<Longrightarrow> c \<in> set (clauses instance) \<Longrightarrow>
   (s, sg) \<in> set c \<Longrightarrow> map_of a s \<noteq> None \<Longrightarrow> weight (clauses instance') < weight (clauses instance)"
  using simplify_clauses_weight[of a "clauses instance" "[]"] residue_less[of c "clauses instance" s sg a]
  by (auto simp: simplify_def weight_def split: option.splits)

lemma find_unit_Some:
  "find_unit cs = Some p \<Longrightarrow> [p] \<in> set cs"
proof (induction cs)
  case Nil then show ?case by simp
next
  case (Cons c cs)
  then show ?case by (cases c) (auto split: if_splits)
qed

subsection \<open>The unit-propagation loop\<close>

text \<open>
  The \<^verbatim>\<open>while unit_clause:\<close> loop of \<^verbatim>\<open>solve_dpll\<close>. It ends with a \<^verbatim>\<open>return\<close> of the
  function (\<open>Returned\<close>) or by running out of unit clauses (\<open>Exhausted\<close>, with the
  instance it has reached). The second component is the content of the dict \<^verbatim>\<open>assignment\<close>
  afterwards: \<^verbatim>\<open>assignment[symbol] = sign\<close> writes into the dict the caller passed.
\<close>

datatype loop_exit = Returned "assignment option" | Exhausted SatInstance

function propagate :: "SatInstance \<Rightarrow> assignment \<Rightarrow> loop_exit \<times> assignment" where
  "propagate instance assignment =
     (case find_unit_clause instance of
        None \<Rightarrow> (Exhausted instance, assignment)
      | Some (symbol, sign) \<Rightarrow>
          if map_of assignment symbol \<noteq> None \<and> map_of assignment symbol \<noteq> Some sign
          then (Returned None, assignment)
          else (case simplify instance [(symbol, sign)] of
                  None \<Rightarrow> (Returned None, AList.update symbol sign assignment)
                | Some instance' \<Rightarrow>
                    if clauses instance' = []
                    then (Returned (Some (AList.update symbol sign assignment)), AList.update symbol sign assignment)
                    else propagate instance' (AList.update symbol sign assignment)))"
  by pat_completeness auto
termination
proof (relation "measure (\<lambda>(instance, assignment). weight (clauses instance))")
  show "wf (measure (\<lambda>(instance, assignment). weight (clauses instance)))" by simp
next
  fix inst :: SatInstance and asg :: assignment and x2 symbol sign inst'
  assume u: "find_unit_clause inst = Some x2" "(symbol, sign) = x2"
    and s: "simplify inst [(symbol, sign)] = Some inst'"
  have "[(symbol, sign)] \<in> set (clauses inst)"
    using u find_unit_Some by (auto simp: find_unit_clause_def)
  from simplify_weight_less[OF s this, of symbol sign]
  show "((inst', AList.update symbol sign asg), (inst, asg))
        \<in> measure (\<lambda>(instance, assignment). weight (clauses instance))"
    by simp
qed

declare propagate.simps [simp del]

definition consistent :: "SatInstance \<Rightarrow> bool" where
  "consistent inst = (symbols inst = sorted_symbols (clauses inst))"

definition dpll_measure :: "SatInstance \<Rightarrow> nat" where
  "dpll_measure inst = 2 * weight (clauses inst) + (if consistent inst then 0 else 1)"

lemma simplify_consistent: "simplify inst a = Some inst' \<Longrightarrow> consistent inst'"
  by (auto simp: simplify_def consistent_def sorted_symbols_Nil split: option.splits)

lemma propagate_measure:
  "propagate inst a = (Exhausted inst1, a1) \<Longrightarrow> dpll_measure inst1 \<le> dpll_measure inst"
proof (induction inst a rule: propagate.induct)
  case (1 inst a)
  show ?case
  proof (cases "find_unit_clause inst")
    case None
    then show ?thesis using "1.prems" by (simp add: propagate.simps[of inst a])
  next
    case (Some p)
    obtain s sg where p: "p = (s, sg)" by (cases p)
    have unit: "[(s, sg)] \<in> set (clauses inst)"
      using Some p find_unit_Some by (auto simp: find_unit_clause_def)
    from "1.prems" Some p obtain inst' where
      s: "simplify inst [(s, sg)] = Some inst'" and ne: "clauses inst' \<noteq> []"
      and rec: "propagate inst' (AList.update s sg a) = (Exhausted inst1, a1)"
      and nc: "\<not> (map_of a s \<noteq> None \<and> map_of a s \<noteq> Some sg)"
      by (auto simp: propagate.simps[of inst a] split: if_splits option.splits)
    have "dpll_measure inst1 \<le> dpll_measure inst'"
      using "1.IH"[OF Some p[symmetric] nc s ne rec] .
    moreover have "weight (clauses inst') < weight (clauses inst)"
      using simplify_weight_less[OF s unit, of s sg] by simp
    moreover have "consistent inst'" using s by (rule simplify_consistent)
    ultimately show ?thesis by (simp add: dpll_measure_def)
  qed
qed

lemma sorted_symbols_set: "set (sorted_symbols cs) = (\<Union>c \<in> set cs. fst ` set c)"
  by (simp add: sorted_symbols_def)

lemma branch_measure:
  assumes "u \<in> set (symbols inst)" "simplify inst [(u, v)] = Some inst'"
  shows "dpll_measure inst' < dpll_measure inst"
proof (cases "consistent inst")
  case True
  then obtain c sg where "c \<in> set (clauses inst)" "(u, sg) \<in> set c"
    using assms(1) sorted_symbols_set[of "clauses inst"] by (auto simp: consistent_def)
  then have "weight (clauses inst') < weight (clauses inst)"
    using simplify_weight_less[OF assms(2), of c u sg] by simp
  then show ?thesis using simplify_consistent[OF assms(2)] by (simp add: dpll_measure_def)
next
  case False
  then show ?thesis
    using simplify_weight_le[OF assms(2)] simplify_consistent[OF assms(2)]
    by (simp add: dpll_measure_def)
qed

lemma dpll_step_measure:
  assumes "(x, y) = propagate inst asg" "x = Exhausted x2"
    "find P (symbols x2) = Some u" "simplify x2 [(u, v)] = Some i"
  shows "((i, asg'), (inst, asg)) \<in> measure (\<lambda>(inst, asg). dpll_measure inst)"
proof -
  have "u \<in> set (symbols x2)" using assms(3) by (auto simp: find_Some_iff)
  then have "dpll_measure i < dpll_measure x2" using assms(4) by (rule branch_measure)
  moreover have "dpll_measure x2 \<le> dpll_measure inst"
    using assms(1,2) propagate_measure[of inst asg x2 y] by simp
  ultimately show ?thesis by simp
qed

subsection \<open>solve_dpll\<close>

text \<open>
  The result is the returned value or the exception, and the content of the caller's
  dict \<^verbatim>\<open>assignment\<close> when the call ends. The branching step writes only into the
  copies \<^verbatim>\<open>assignment_true\<close> and \<^verbatim>\<open>assignment_false\<close>; the instance is only read
  (\<^verbatim>\<open>simplify\<close> builds new objects). \<^verbatim>\<open>simplify\<close> is evaluated before the recursive call,
  and a \<^verbatim>\<open>None\<close> from it makes the callee raise.
\<close>

text \<open>Python's truth value of \<^verbatim>\<open>result_true\<close>: \<^verbatim>\<open>None\<close> and the empty dict are false.\<close>

definition truthy :: "assignment option \<Rightarrow> bool" where
  "truthy r = (case r of None \<Rightarrow> False | Some a \<Rightarrow> a \<noteq> [])"

function solve_dpll :: "SatInstance \<Rightarrow> assignment \<Rightarrow> (error + assignment option) \<times> assignment" where
  "solve_dpll instance assignment =
     (case propagate instance assignment of
        (Returned r, assignment1) \<Rightarrow> (Inr r, assignment1)
      | (Exhausted instance1, assignment1) \<Rightarrow>
          if clauses instance1 = [] then (Inr (Some assignment1), assignment1)
          else (case find (\<lambda>s. map_of assignment1 s = None) (symbols instance1) of
                  None \<Rightarrow> (Inr (Some assignment1), assignment1)
                | Some unassigned_symbol \<Rightarrow>
                    (case (case simplify instance1 [(unassigned_symbol, 1)] of
                             None \<Rightarrow> Inl AttributeError
                           | Some instance_true \<Rightarrow>
                               fst (solve_dpll instance_true (AList.update unassigned_symbol 1 assignment1))) of
                       Inl e \<Rightarrow> (Inl e, assignment1)
                     | Inr result_true \<Rightarrow>
                         if truthy result_true then (Inr result_true, assignment1)
                         else (case simplify instance1 [(unassigned_symbol, - 1)] of
                                 None \<Rightarrow> (Inl AttributeError, assignment1)
                               | Some instance_false \<Rightarrow>
                                   (fst (solve_dpll instance_false (AList.update unassigned_symbol (- 1) assignment1)),
                                    assignment1)))))"
  by pat_completeness auto
termination
  apply (relation "measure (\<lambda>(inst, asg). dpll_measure inst)")
    apply simp
   apply (blast intro: dpll_step_measure)
  apply (blast intro: dpll_step_measure)
  done

declare solve_dpll.simps [simp del]

section \<open>Well-formed formulas\<close>

text \<open>
  What the parsers guarantee of a formula: every clause is a dict (distinct keys) with
  at least one symbol, and the symbol list is the sorted list of the symbols of the
  clauses. \<open>keys\<close> are the symbols of a list of clauses; an assignment is \<open>fresh\<close> for
  them when it binds none of them.
\<close>

definition clauses_ok :: "clause list \<Rightarrow> bool" where
  "clauses_ok cs = (\<forall>c \<in> set cs. c \<noteq> [] \<and> dict_inv c)"

definition well_formed :: "SatInstance \<Rightarrow> bool" where
  "well_formed inst = (clauses_ok (clauses inst) \<and> symbols inst = sorted_symbols (clauses inst))"

definition keys :: "clause list \<Rightarrow> symbol set" where
  "keys cs = (\<Union>c \<in> set cs. fst ` set c)"

definition fresh :: "assignment \<Rightarrow> clause list \<Rightarrow> bool" where
  "fresh a cs = (\<forall>s \<in> keys cs. map_of a s = None)"

section \<open>The Davis-Putnam procedure of dp.py\<close>

text \<open>
  A clause is a \<^verbatim>\<open>frozenset\<close> of integers, here an \<open>int set\<close>; the argument of \<^verbatim>\<open>dp\<close>
  is a list of them (named \<open>clause_list\<close>, as \<^verbatim>\<open>main\<close> names it, since \<open>clauses\<close> is the
  field of the record). \<^verbatim>\<open>next(iter(variables))\<close> takes the first element of a set in
  its iteration order, which Python leaves to the implementation: it is the parameter
  \<open>pick\<close>. The recursion of \<^verbatim>\<open>dp\<close> need not end, so \<open>dp\<close> is a partial function: \<open>None\<close>
  is a call that never returns, \<open>Some True\<close> is SAT and \<open>Some False\<close> is UNSAT.
\<close>

definition variables_of :: "int set list \<Rightarrow> int set" where
  "variables_of clause_list = (\<Union>clause \<in> set clause_list. abs ` clause)"

text \<open>
  The two nested loops over \<^verbatim>\<open>pos_clauses\<close> and \<^verbatim>\<open>neg_clauses\<close>: \<open>None\<close> is the
  \<^verbatim>\<open>return False\<close> at an empty resolvent, \<open>Some\<close> the list \<^verbatim>\<open>resolvents\<close> after the loops.
\<close>

fun resolvents_row :: "int \<Rightarrow> int set \<Rightarrow> int set list \<Rightarrow> int set list \<Rightarrow> int set list option" where
  "resolvents_row var c1 [] resolvents = Some resolvents"
| "resolvents_row var c1 (c2 # neg_clauses) resolvents =
     (if (c1 - {var}) \<union> (c2 - {- var}) = {} then None
      else resolvents_row var c1 neg_clauses (resolvents @ [(c1 - {var}) \<union> (c2 - {- var})]))"

fun resolvents_all :: "int \<Rightarrow> int set list \<Rightarrow> int set list \<Rightarrow> int set list \<Rightarrow> int set list option" where
  "resolvents_all var [] neg_clauses resolvents = Some resolvents"
| "resolvents_all var (c1 # pos_clauses) neg_clauses resolvents =
     (case resolvents_row var c1 neg_clauses resolvents of
        None \<Rightarrow> None
      | Some resolvents' \<Rightarrow> resolvents_all var pos_clauses neg_clauses resolvents')"

partial_function (option) dp :: "(int set \<Rightarrow> int) \<Rightarrow> int set list \<Rightarrow> bool option" where
  "dp pick clause_list =
     (if {} \<in> set clause_list then Some False
      else if clause_list = [] then Some True
      else if variables_of clause_list = {} then Some True
      else (case resolvents_all (pick (variables_of clause_list))
                   (filter (\<lambda>c. pick (variables_of clause_list) \<in> c) clause_list)
                   (filter (\<lambda>c. - pick (variables_of clause_list) \<in> c) clause_list) [] of
              None \<Rightarrow> Some False
            | Some resolvents \<Rightarrow>
                dp pick (filter (\<lambda>c. pick (variables_of clause_list) \<notin> c \<and> - pick (variables_of clause_list) \<notin> c) clause_list
                         @ resolvents)))"

declare dp.simps [code]

section \<open>The resolution procedure of resolution.py\<close>

text \<open>
  \<^verbatim>\<open>known\<close> is a set of frozensets. The order of \<^verbatim>\<open>list(known)\<close> and the order in which
  \<^verbatim>\<open>resolve\<close> iterates over the literals of \<^verbatim>\<open>c1\<close> are the iteration orders of sets,
  which Python leaves to the implementation: they are the parameters \<open>enum\<close> and
  \<open>iter\<close>. The \<^verbatim>\<open>while True\<close> loop is a partial function.
\<close>

definition resolve :: "(int set \<Rightarrow> int list) \<Rightarrow> int set \<Rightarrow> int set \<Rightarrow> int set option" where
  "resolve iter c1 c2 =
     (case find (\<lambda>lit. - lit \<in> c2) (iter c1) of
        None \<Rightarrow> None
      | Some lit \<Rightarrow> Some ((c1 - {lit}) \<union> (c2 - {- lit})))"

text \<open>
  The loop over \<^verbatim>\<open>j\<close> for one \<^verbatim>\<open>c1 = known_list[i]\<close> and the loop over \<^verbatim>\<open>i\<close>;
  \<open>None\<close> is the \<^verbatim>\<open>return "Unsatisfiable"\<close>, \<open>Some\<close> the set \<^verbatim>\<open>new_clauses\<close> so far.
\<close>

fun resolve_row ::
  "(int set \<Rightarrow> int list) \<Rightarrow> int set set \<Rightarrow> int set \<Rightarrow> int set list \<Rightarrow> int set set \<Rightarrow> int set set option" where
  "resolve_row iter known c1 [] new_clauses = Some new_clauses"
| "resolve_row iter known c1 (c2 # rest) new_clauses =
     (case resolve iter c1 c2 of
        None \<Rightarrow> resolve_row iter known c1 rest new_clauses
      | Some resolvent \<Rightarrow>
          if resolvent = {} then None
          else if resolvent \<notin> known then resolve_row iter known c1 rest (insert resolvent new_clauses)
          else resolve_row iter known c1 rest new_clauses)"

fun resolve_pairs ::
  "(int set \<Rightarrow> int list) \<Rightarrow> int set set \<Rightarrow> int set list \<Rightarrow> int set set \<Rightarrow> int set set option" where
  "resolve_pairs iter known [] new_clauses = Some new_clauses"
| "resolve_pairs iter known (c1 # rest) new_clauses =
     (case resolve_row iter known c1 rest new_clauses of
        None \<Rightarrow> None
      | Some new_clauses' \<Rightarrow> resolve_pairs iter known rest new_clauses')"

partial_function (option) saturate ::
  "(int set set \<Rightarrow> int set list) \<Rightarrow> (int set \<Rightarrow> int list) \<Rightarrow> int set set \<Rightarrow> string option" where
  "saturate enum iter known =
     (case resolve_pairs iter known (enum known) {} of
        None \<Rightarrow> Some ''Unsatisfiable''
      | Some new_clauses \<Rightarrow>
          if new_clauses = {} then Some ''Satisfiable''
          else saturate enum iter (known \<union> new_clauses))"

declare saturate.simps [code]

definition resolution ::
  "(int set set \<Rightarrow> int set list) \<Rightarrow> (int set \<Rightarrow> int list) \<Rightarrow> int set list \<Rightarrow> string option" where
  "resolution enum iter clause_list = saturate enum iter (set clause_list)"

text \<open>
  One iteration order to evaluate with: a set of integers in increasing order, a set
  of clauses in the lexicographic order of their sorted literals.
\<close>

definition sorted_known :: "int set set \<Rightarrow> int set list" where
  "sorted_known known = map set (sorted_list_of_set (sorted_list_of_set ` known))"

subsection \<open>convert_to_clause_list of dp.py\<close>

text \<open>
  \<^verbatim>\<open>symbol_to_int\<close> is the dict comprehension over \<^verbatim>\<open>enumerate(instance.symbols)\<close>;
  a symbol of a clause that is not in it raises \<open>KeyError\<close>.
\<close>

definition symbol_to_int :: "symbol list \<Rightarrow> (symbol \<times> int) list" where
  "symbol_to_int syms = foldl (\<lambda>d (i, s). AList.update s (int i + 1) d) [] (enumerate 0 syms)"

fun convert_clause :: "(symbol \<times> int) list \<Rightarrow> clause \<Rightarrow> int set \<Rightarrow> error + int set" where
  "convert_clause d [] clause_lits = Inr clause_lits"
| "convert_clause d ((symbol, sign) # items) clause_lits =
     (case map_of d symbol of
        None \<Rightarrow> Inl (KeyError symbol)
      | Some i \<Rightarrow> convert_clause d items (insert (i * sign) clause_lits))"

fun convert_clauses :: "(symbol \<times> int) list \<Rightarrow> clause list \<Rightarrow> int set list \<Rightarrow> error + int set list" where
  "convert_clauses d [] clause_list = Inr clause_list"
| "convert_clauses d (clause # cs) clause_list =
     (case convert_clause d clause {} of
        Inl e \<Rightarrow> Inl e
      | Inr clause_lits \<Rightarrow> convert_clauses d cs (clause_list @ [clause_lits]))"

definition convert_to_clause_list :: "SatInstance \<Rightarrow> error + int set list" where
  "convert_to_clause_list instance = convert_clauses (symbol_to_int (symbols instance)) (clauses instance) []"

section \<open>Python's string functions\<close>

text \<open>
  \<^verbatim>\<open>str.strip()\<close>, \<^verbatim>\<open>str.split()\<close>, \<^verbatim>\<open>" ".join\<close>, \<^verbatim>\<open>int()\<close> and the decimal
  formatting of \<^verbatim>\<open>f"x{i}"\<close>, on strings of ASCII characters. White space is what
  \<^verbatim>\<open>str.isspace\<close> accepts there. \<^verbatim>\<open>int()\<close> of a token of \<^verbatim>\<open>split()\<close> reads an optional
  sign and decimal digits, with single underscores allowed between digits; \<open>None\<close>
  is its \<^verbatim>\<open>ValueError\<close>.
\<close>

definition is_space :: "char \<Rightarrow> bool" where
  "is_space c = (c \<in> set [CHR '' '', CHR 0x09, CHR 0x0A, CHR 0x0B, CHR 0x0C, CHR 0x0D,
                           CHR 0x1C, CHR 0x1D, CHR 0x1E, CHR 0x1F])"

definition strip :: "string \<Rightarrow> string" where
  "strip s = rev (dropWhile is_space (rev (dropWhile is_space s)))"

text \<open>\<open>split_from word s\<close> splits \<open>s\<close> at white space; \<open>word\<close> is the word being read.\<close>

fun split_from :: "string \<Rightarrow> string \<Rightarrow> string list" where
  "split_from word [] = (if word = [] then [] else [word])"
| "split_from word (c # cs) =
     (if is_space c then (if word = [] then split_from [] cs else word # split_from [] cs)
      else split_from (word @ [c]) cs)"

definition split :: "string \<Rightarrow> string list" where
  "split s = split_from [] s"

fun join :: "string \<Rightarrow> string list \<Rightarrow> string" where
  "join sep [] = []"
| "join sep [t] = t"
| "join sep (t # ts) = t @ sep @ join sep ts"

definition is_digit :: "char \<Rightarrow> bool" where
  "is_digit c = (48 \<le> (of_char c :: nat) \<and> (of_char c :: nat) \<le> 57)"

definition digit_value :: "char \<Rightarrow> nat" where
  "digit_value c = (of_char c :: nat) - 48"

fun read_digits :: "nat \<Rightarrow> string \<Rightarrow> nat option" where
  "read_digits n [] = Some n"
| "read_digits n [c] = (if is_digit c then Some (10 * n + digit_value c) else None)"
| "read_digits n (c # d # cs) =
     (if c = CHR ''_'' then (if is_digit d then read_digits (10 * n + digit_value d) cs else None)
      else if is_digit c then read_digits (10 * n + digit_value c) (d # cs)
      else None)"

definition read_nat :: "string \<Rightarrow> nat option" where
  "read_nat s = (case s of [] \<Rightarrow> None
                 | c # cs \<Rightarrow> if is_digit c then read_digits (digit_value c) cs else None)"

definition py_int :: "string \<Rightarrow> int option" where
  "py_int s = (case s of
       [] \<Rightarrow> None
     | c # cs \<Rightarrow> if c = CHR ''-'' then map_option (\<lambda>n. - int n) (read_nat cs)
                else if c = CHR ''+'' then map_option int (read_nat cs)
                else map_option int (read_nat s))"

definition digit_char :: "nat \<Rightarrow> char" where
  "digit_char d = char_of (48 + d)"

function py_str :: "nat \<Rightarrow> string" where
  "py_str n = (if n < 10 then [digit_char n] else py_str (n div 10) @ [digit_char (n mod 10)])"
  by pat_completeness auto
termination
  by (relation "measure id") auto

declare py_str.simps [simp del]

section \<open>The DIMACS parsers\<close>

text \<open>
  A parser is modelled on the list of the lines of the file it reads. dp.py and
  dpll.py hold the same code for \<^verbatim>\<open>Clause\<close> and for the parsing method of
  \<^verbatim>\<open>SatInstance\<close>, under two names each; the model has one definition for both and
  \<open>dimacs_file\<close> as the second name. \<^verbatim>\<open>variable_map\<close> maps the number \<open>i\<close> to the symbol
  \<^verbatim>\<open>x<i>\<close>, which is the number \<open>i\<close> in the model. resolution.py's \<^verbatim>\<open>dimacs\<close> reads the
  lines of \<^verbatim>\<open>input.cnf\<close>, whatever its argument.
\<close>

subsection \<open>Clause.from_dimacs (dpll.py), Clause.dimacs (dp.py)\<close>

fun from_dimacs_loop :: "(int \<rightharpoonup> symbol) \<Rightarrow> int list \<Rightarrow> clause \<Rightarrow> error + clause" where
  "from_dimacs_loop variable_map [] self_symbols = Inr self_symbols"
| "from_dimacs_loop variable_map (literal # literals) self_symbols =
     (case variable_map (abs literal) of
        Some symbol \<Rightarrow>
          from_dimacs_loop variable_map literals
            (AList.update symbol (if literal > 0 then 1 else - 1) self_symbols)
      | None \<Rightarrow> Inl (ValueError (Undefined_variable literal)))"

definition from_dimacs :: "int list \<Rightarrow> (int \<rightharpoonup> symbol) \<Rightarrow> error + clause" where
  "from_dimacs literals variable_map = from_dimacs_loop variable_map literals []"

subsection \<open>SatInstance.from_dimacs_file (dpll.py), SatInstance.dimacs_file (dp.py)\<close>

record parse_state =
  variable_map :: "int \<rightharpoonup> symbol"
  self_clauses :: "clause list"
  self_symbols :: "symbol set"

text \<open>\<^verbatim>\<open>for i in range(1, num_vars + 1): variable_map[i] = f"x{i}"\<close>\<close>

definition declare_variables :: "int \<Rightarrow> (int \<rightharpoonup> symbol) \<Rightarrow> (int \<rightharpoonup> symbol)" where
  "declare_variables num_vars vm = fold (\<lambda>i m. m(i \<mapsto> nat i)) [1..num_vars] vm"

text \<open>\<^verbatim>\<open>[int(l) for l in line.split() if l != '0']\<close>\<close>

fun int_literals :: "string list \<Rightarrow> error + int list" where
  "int_literals [] = Inr []"
| "int_literals (l # ls) =
     (if l \<noteq> ''0'' then
        (case py_int l of
           None \<Rightarrow> Inl (ValueError (Invalid_literal l))
         | Some i \<Rightarrow> (case int_literals ls of Inl e \<Rightarrow> Inl e | Inr is \<Rightarrow> Inr (i # is)))
      else int_literals ls)"

definition parse_line :: "parse_state \<Rightarrow> string \<Rightarrow> error + parse_state" where
  "parse_line st raw =
     (let line = strip raw in
      if prefix ''c'' line then Inr st
      else if prefix ''p cnf'' line then
        (let parts = split line in
         if length parts = 4 \<and> parts ! 0 = ''p'' \<and> parts ! 1 = ''cnf'' then
           (case py_int (parts ! 2) of
              None \<Rightarrow> Inl (ValueError (Invalid_literal (parts ! 2)))
            | Some num_vars \<Rightarrow>
                Inr (st\<lparr>variable_map := declare_variables num_vars (variable_map st)\<rparr>))
         else Inl (ValueError Invalid_preamble))
      else if line \<noteq> [] then
        (case int_literals (split line) of
           Inl e \<Rightarrow> Inl e
         | Inr literals \<Rightarrow>
             if literals \<noteq> [] then
               (case from_dimacs literals (variable_map st) of
                  Inl e \<Rightarrow> Inl e
                | Inr clause \<Rightarrow>
                    Inr (st\<lparr>self_clauses := self_clauses st @ [clause],
                            self_symbols := self_symbols st \<union> fst ` set clause\<rparr>))
             else Inr st)
      else Inr st)"

fun parse_lines :: "parse_state \<Rightarrow> string list \<Rightarrow> error + parse_state" where
  "parse_lines st [] = Inr st"
| "parse_lines st (line # lines) =
     (case parse_line st line of Inl e \<Rightarrow> Inl e | Inr st' \<Rightarrow> parse_lines st' lines)"

definition from_dimacs_file :: "string list \<Rightarrow> error + SatInstance" where
  "from_dimacs_file lines =
     (case parse_lines \<lparr>variable_map = Map.empty, self_clauses = [], self_symbols = {}\<rparr> lines of
        Inl e \<Rightarrow> Inl e
      | Inr st \<Rightarrow>
          Inr \<lparr>symbols = (if self_symbols st \<noteq> {} then sorted_list_of_set (self_symbols st) else []),
               clauses = self_clauses st\<rparr>)"

definition dimacs_file :: "string list \<Rightarrow> error + SatInstance" where
  "dimacs_file = from_dimacs_file"

subsection \<open>dimacs (resolution.py)\<close>

fun dimacs_loop :: "string list \<Rightarrow> int set list \<Rightarrow> error + int set list" where
  "dimacs_loop [] clause_list = Inr clause_list"
| "dimacs_loop (raw # lines) clause_list =
     (let line = strip raw in
      if prefix ''c'' line \<or> line = [] \<or> prefix ''p'' line then dimacs_loop lines clause_list
      else (case int_literals (split line) of
              Inl e \<Rightarrow> Inl e
            | Inr literals \<Rightarrow>
                if literals \<noteq> [] then dimacs_loop lines (clause_list @ [set (sort literals)])
                else dimacs_loop lines clause_list))"

definition dimacs :: "string list \<Rightarrow> error + int set list" where
  "dimacs input_cnf = dimacs_loop input_cnf []"

subsection \<open>Clause.__str__ (dpll.py), Clause.format (dp.py)\<close>

definition symbol_name :: "symbol \<Rightarrow> string" where
  "symbol_name i = ''x'' @ py_str i"

definition token :: "symbol \<times> int \<Rightarrow> string" where
  "token = (\<lambda>(symbol, sign). (if sign = - 1 then ''-'' else []) @ symbol_name symbol)"

definition clause_str :: "clause \<Rightarrow> string" where
  "clause_str c = join '' '' (map token c)"

text \<open>
  The invariant of the parsing loop.
\<close>

definition parse_inv :: "parse_state \<Rightarrow> bool" where
  "parse_inv st = (clauses_ok (self_clauses st) \<and> self_symbols st = keys (self_clauses st))"

section \<open>The DIMACS literals of a formatted clause\<close>

text \<open>
  \<^verbatim>\<open>__str__\<close> writes symbol names, not DIMACS literals. \<open>unname\<close> deletes the letter
  \<^verbatim>\<open>x\<close> from a token, which gives the DIMACS literal; \<open>literal_of\<close> is the DIMACS literal
  of an entry of a clause.
\<close>

definition unname :: "string \<Rightarrow> string" where
  "unname t = filter (\<lambda>ch. ch \<noteq> CHR ''x'') t"

definition literal_of :: "symbol \<times> int \<Rightarrow> int" where
  "literal_of = (\<lambda>(symbol, sign). sign * int symbol)"

text \<open>
  The characters \<^verbatim>\<open>str(i)\<close> writes: decimal digits only.
\<close>

definition plain_digits :: "string \<Rightarrow> bool" where
  "plain_digits s = (\<forall>c \<in> set s. is_digit c \<and> \<not> is_space c \<and> c \<noteq> CHR ''x'' \<and> c \<noteq> CHR ''_''
                       \<and> c \<noteq> CHR ''-'' \<and> c \<noteq> CHR ''+'')"

text \<open>
  An entry of a clause that the parser makes with the variables \<open>1..nvars\<close> declared.
\<close>

definition parsed_entry :: "int \<Rightarrow> symbol \<times> int \<Rightarrow> bool" where
  "parsed_entry nvars = (\<lambda>(s, sg). 1 \<le> s \<and> int s \<le> nvars \<and> (sg = 1 \<or> sg = - 1))"

section \<open>simplify meets its specification\<close>

lemma clause_satisfied_matches: "clause_satisfied a c = matches a c"
  by (induction c) (auto simp: matches_def)

lemma update_fresh: "k \<notin> fst ` set al \<Longrightarrow> AList.update k v al = al @ [(k, v)]"
  by (induction al) auto

lemma simplify_clause_snd:
  "\<not> matches a c \<Longrightarrow> distinct (map fst c) \<Longrightarrow> fst ` set new \<inter> fst ` set c = {}
   \<Longrightarrow> snd (simplify_clause a c new) = new @ reduce a c"
proof (induction c arbitrary: new)
  case Nil
  then show ?case by (simp add: reduce_def)
next
  case (Cons p c)
  obtain s sg where p: "p = (s, sg)" by (cases p)
  from Cons.prems(1) have nm: "\<not> matches a c" and ns: "map_of a s \<noteq> Some sg"
    by (auto simp: matches_def p)
  show ?case
  proof (cases "map_of a s")
    case None
    have fresh: "s \<notin> fst ` set new" using Cons.prems(3) by (auto simp: p)
    have disj: "fst ` set (new @ [(s, sg)]) \<inter> fst ` set c = {}"
      using Cons.prems(2,3) by (auto simp: p)
    have "snd (simplify_clause a c (new @ [(s, sg)])) = (new @ [(s, sg)]) @ reduce a c"
      using Cons.IH[OF nm _ disj] Cons.prems(2) by simp
    then show ?thesis using None fresh by (simp add: p update_fresh reduce_def dom_def)
  next
    case (Some v)
    have disj: "fst ` set new \<inter> fst ` set c = {}" using Cons.prems(3) by auto
    have "snd (simplify_clause a c new) = new @ reduce a c"
      using Cons.IH[OF nm _ disj] Cons.prems(2) by simp
    then show ?thesis using Some ns by (simp add: p reduce_def dom_def)
  qed
qed

lemma simplify_clauses_eq:
  "\<forall>c \<in> set cs. dict_inv c \<Longrightarrow>
   simplify_clauses a cs acc =
     (if \<exists>c \<in> set cs. \<not> matches a c \<and> reduce a c = [] then None
      else Some (acc @ map (reduce a) (survivors a cs)))"
proof (induction cs arbitrary: acc)
  case Nil
  then show ?case by (simp add: survivors_def)
next
  case (Cons c cs)
  have inv: "distinct (map fst c)" and invs: "\<forall>c \<in> set cs. dict_inv c"
    using Cons.prems by (auto simp: dict_inv_def)
  note IH = Cons.IH[OF invs]
  obtain sat new where sc: "simplify_clause a c [] = (sat, new)"
    by (cases "simplify_clause a c []")
  have sat: "sat = matches a c" using simplify_clause_fst[of a c "[]"] sc by simp
  show ?case
  proof (cases "matches a c")
    case True
    then show ?thesis using sc sat IH[of acc]
      by (simp add: survivors_def)
  next
    case False
    then have "new = reduce a c"
      using simplify_clause_snd[of a c "[]"] inv sc by simp
    then show ?thesis using False sc sat IH[of "acc @ [reduce a c]"]
      by (auto simp add: survivors_def)
  qed
qed

lemma simplify_eq_spec:
  "\<forall>c \<in> set (clauses instance). dict_inv c \<Longrightarrow>
   simplify instance assignment = simplify_spec instance assignment"
  by (simp add: simplify_def simplify_spec_def simplify_clauses_eq sorted_symbols_Nil)

section \<open>Facts about the DPLL solver\<close>

subsection \<open>solve_dpll raises nothing on a well-formed formula\<close>

lemma simplify_SomeD:
  assumes "\<forall>c \<in> set (clauses inst). dict_inv c" "simplify inst a = Some inst'"
  shows "clauses inst' = map (reduce a) (survivors a (clauses inst))"
    and "\<forall>c \<in> set (clauses inst). matches a c \<or> reduce a c \<noteq> []"
  using assms(2) simplify_eq_spec[OF assms(1), of a]
  by (auto simp: simplify_spec_def split: if_splits)

lemma dict_inv_reduce: "dict_inv c \<Longrightarrow> dict_inv (reduce a c)"
  by (simp add: dict_inv_def reduce_def distinct_map_filter)

lemma simplify_clauses_ok:
  assumes "clauses_ok (clauses inst)" "simplify inst a = Some inst'"
  shows "clauses_ok (clauses inst')"
proof -
  have inv: "\<forall>c \<in> set (clauses inst). dict_inv c" using assms(1) by (simp add: clauses_ok_def)
  note D = simplify_SomeD[OF inv assms(2)]
  show ?thesis unfolding clauses_ok_def D(1)
    using D(2) inv by (auto simp: survivors_def dict_inv_reduce)
qed

lemma find_unit_None: "find_unit cs = None \<Longrightarrow> c \<in> set cs \<Longrightarrow> length c \<noteq> 1"
  by (induction cs) (auto split: if_splits)

lemma reduce_single_nonempty:
  assumes "dict_inv c" "2 \<le> length c"
  shows "reduce [(u, v)] c \<noteq> []"
proof -
  obtain p q r where c: "c = p # q # r" using assms(2)
    by (cases c; cases "tl c") auto
  then have "fst p \<noteq> fst q" using assms(1) by (auto simp: dict_inv_def)
  then have "fst p \<noteq> u \<or> fst q \<noteq> u" by auto
  then show ?thesis by (auto simp: c reduce_def split: prod.splits)
qed

lemma simplify_branch_Some:
  assumes "clauses_ok (clauses inst)" "find_unit_clause inst = None"
  shows "\<exists>inst'. simplify inst [(u, v)] = Some inst'"
proof -
  have inv: "\<forall>c \<in> set (clauses inst). dict_inv c" using assms(1) by (simp add: clauses_ok_def)
  have "reduce [(u, v)] c \<noteq> []" if "c \<in> set (clauses inst)" for c
  proof -
    have "length c \<noteq> 1" using assms(2) that find_unit_None by (auto simp: find_unit_clause_def)
    moreover have "c \<noteq> []" "dict_inv c" using assms(1) that by (auto simp: clauses_ok_def)
    ultimately have "2 \<le> length c" by (cases c; cases "tl c") auto
    then show ?thesis using \<open>dict_inv c\<close> by (rule reduce_single_nonempty[rotated])
  qed
  then show ?thesis using simplify_eq_spec[OF inv, of "[(u, v)]"]
    by (auto simp: simplify_spec_def)
qed

lemma propagate_Exhausted_ok:
  "propagate inst a = (Exhausted inst1, a1) \<Longrightarrow> clauses_ok (clauses inst) \<Longrightarrow>
   clauses_ok (clauses inst1) \<and> find_unit_clause inst1 = None"
proof (induction inst a rule: propagate.induct)
  case (1 inst a)
  show ?case
  proof (cases "find_unit_clause inst")
    case None
    then show ?thesis using "1.prems" by (simp add: propagate.simps[of inst a])
  next
    case (Some p)
    obtain s sg where p: "p = (s, sg)" by (cases p)
    from "1.prems"(1) Some p obtain inst' where
      s: "simplify inst [(s, sg)] = Some inst'" and ne: "clauses inst' \<noteq> []"
      and rec: "propagate inst' (AList.update s sg a) = (Exhausted inst1, a1)"
      and nc: "\<not> (map_of a s \<noteq> None \<and> map_of a s \<noteq> Some sg)"
      by (auto simp: propagate.simps[of inst a] split: if_splits option.splits)
    show ?thesis
      using "1.IH"[OF Some p[symmetric] nc s ne rec] simplify_clauses_ok[OF "1.prems"(2) s] by simp
  qed
qed

lemma solve_dpll_Returned:
  "propagate inst a = (Returned r, a1) \<Longrightarrow> solve_dpll inst a = (Inr r, a1)"
  by (subst solve_dpll.simps) simp

lemma solve_dpll_no_error:
  "clauses_ok (clauses inst) \<Longrightarrow> \<exists>r. fst (solve_dpll inst a) = Inr r"
proof (induction inst a rule: solve_dpll.induct)
  case (1 inst a)
  obtain x a1 where pr: "propagate inst a = (x, a1)" by (cases "propagate inst a")
  show ?case
  proof (cases x)
    case (Returned r)
    then show ?thesis using pr by (simp add: solve_dpll_Returned)
  next
    case (Exhausted inst1)
    have ok1: "clauses_ok (clauses inst1)" and nu: "find_unit_clause inst1 = None"
      using propagate_Exhausted_ok[OF pr[unfolded Exhausted] "1.prems"] by auto
    show ?thesis
    proof (cases "clauses inst1 = []")
      case True
      then show ?thesis using pr Exhausted by (subst solve_dpll.simps) simp
    next
      case ne: False
      show ?thesis
      proof (cases "find (\<lambda>s. map_of a1 s = None) (symbols inst1)")
        case None
        then show ?thesis using pr Exhausted ne by (subst solve_dpll.simps) simp
      next
        case (Some u)
        obtain it where st: "simplify inst1 [(u, 1)] = Some it"
          using simplify_branch_Some[OF ok1 nu] by blast
        obtain ifa where sf: "simplify inst1 [(u, - 1)] = Some ifa"
          using simplify_branch_Some[OF ok1 nu] by blast
        have okt: "clauses_ok (clauses it)" using simplify_clauses_ok[OF ok1 st] .
        have okf: "clauses_ok (clauses ifa)" using simplify_clauses_ok[OF ok1 sf] .
        obtain rt where rt: "fst (solve_dpll it (AList.update u 1 a1)) = Inr rt"
          using "1.IH"(1)[OF pr[symmetric] Exhausted ne Some st okt] by blast
        show ?thesis
        proof (cases "truthy rt")
          case True
          then show ?thesis using pr Exhausted ne Some st rt
            by (subst solve_dpll.simps) simp
        next
          case False
          have "\<exists>r. fst (solve_dpll ifa (AList.update u (- 1) a1)) = Inr r"
            using "1.IH"(2)[OF pr[symmetric] Exhausted ne Some _ False sf okf] st rt by simp
          then show ?thesis using pr Exhausted ne Some st rt False sf
            by (subst solve_dpll.simps) simp
        qed
      qed
    qed
  qed
qed

subsection \<open>The assignment that solve_dpll returns satisfies the formula\<close>

lemma is_satisfied_iff: "is_satisfied inst r = (\<forall>c \<in> set (clauses inst). matches r c)"
proof -
  have "all_satisfied r cs = (\<forall>c \<in> set cs. matches r c)" for cs
    by (induction cs) (auto simp: clause_satisfied_matches)
  then show ?thesis by (simp add: is_satisfied_def)
qed

lemma matches_single: "matches [(s, sg)] c = ((s, sg) \<in> set c)"
  by (force simp: matches_def split: if_splits)

lemma matches_reduce: "matches r (reduce a c) \<Longrightarrow> matches r c"
  by (auto simp: matches_def reduce_def)

lemma simplify_sound:
  assumes "clauses_ok (clauses inst)" "simplify inst [(s, sg)] = Some inst'"
    "is_satisfied inst' r" "map_of r s = Some sg"
  shows "is_satisfied inst r"
proof -
  have inv: "\<forall>c \<in> set (clauses inst). dict_inv c" using assms(1) by (simp add: clauses_ok_def)
  note D = simplify_SomeD[OF inv assms(2)]
  have "matches r c" if "c \<in> set (clauses inst)" for c
  proof (cases "matches [(s, sg)] c")
    case True
    then have "(s, sg) \<in> set c" by (simp add: matches_single)
    then show ?thesis using assms(4) by (auto simp: matches_def)
  next
    case False
    then have "reduce [(s, sg)] c \<in> set (clauses inst')"
      using that D(1) by (auto simp: survivors_def)
    then show ?thesis using assms(3) matches_reduce by (auto simp: is_satisfied_iff)
  qed
  then show ?thesis by (simp add: is_satisfied_iff)
qed

lemma simplify_keys:
  assumes "clauses_ok (clauses inst)" "simplify inst [(s, sg)] = Some inst'"
  shows "keys (clauses inst') \<subseteq> keys (clauses inst) - {s}"
proof -
  have inv: "\<forall>c \<in> set (clauses inst). dict_inv c" using assms(1) by (simp add: clauses_ok_def)
  note D = simplify_SomeD[OF inv assms(2)]
  show ?thesis unfolding D(1) by (auto simp: keys_def survivors_def reduce_def)
qed

lemma simplify_fresh:
  assumes "clauses_ok (clauses inst)" "simplify inst [(s, sg)] = Some inst'" "fresh a (clauses inst)"
  shows "fresh (AList.update s v a) (clauses inst')"
  using simplify_keys[OF assms(1,2)] assms(3)
  by (auto simp: fresh_def update_conv')

lemma update_extends:
  "\<not> (map_of a s \<noteq> None \<and> map_of a s \<noteq> Some sg) \<Longrightarrow> map_of a \<subseteq>\<^sub>m map_of (AList.update s sg a)"
  by (auto simp: map_le_def update_conv')

text \<open>What the unit-propagation loop guarantees.\<close>

lemma propagate_sound:
  "propagate inst a = (x, a1) \<Longrightarrow> clauses_ok (clauses inst) \<Longrightarrow> fresh a (clauses inst) \<Longrightarrow>
   map_of a \<subseteq>\<^sub>m map_of a1 \<and>
   (case x of
      Returned None \<Rightarrow> True
    | Returned (Some r) \<Rightarrow> r = a1 \<and> is_satisfied inst r
    | Exhausted inst1 \<Rightarrow>
        fresh a1 (clauses inst1) \<and> (inst1 = inst \<or> consistent inst1) \<and>
        (\<forall>r. map_of a1 \<subseteq>\<^sub>m map_of r \<longrightarrow> is_satisfied inst1 r \<longrightarrow> is_satisfied inst r))"
proof (induction inst a rule: propagate.induct)
  case (1 inst a)
  show ?case
  proof (cases "find_unit_clause inst")
    case None
    then show ?thesis using "1.prems" by (auto simp: propagate.simps[of inst a])
  next
    case (Some p)
    obtain s sg where p: "p = (s, sg)" by (cases p)
    show ?thesis
    proof (cases "map_of a s \<noteq> None \<and> map_of a s \<noteq> Some sg")
      case True
      then show ?thesis using "1.prems"(1) Some p by (auto simp: propagate.simps[of inst a])
    next
      case nc: False
      have ext: "map_of a \<subseteq>\<^sub>m map_of (AList.update s sg a)" using nc by (rule update_extends)
      show ?thesis
      proof (cases "simplify inst [(s, sg)]")
        case None
        then show ?thesis using "1.prems"(1) Some p nc ext by (auto simp: propagate.simps[of inst a])
      next
        case (Some inst')
        note s = Some
        have fr: "fresh (AList.update s sg a) (clauses inst')"
          using simplify_fresh[OF "1.prems"(2) s "1.prems"(3)] .
        have ok: "clauses_ok (clauses inst')" using simplify_clauses_ok[OF "1.prems"(2) s] .
        have up: "map_of (AList.update s sg a) s = Some sg" by (simp add: update_conv')
        show ?thesis
        proof (cases "clauses inst' = []")
          case True
          then have "is_satisfied inst' (AList.update s sg a)" by (simp add: is_satisfied_iff)
          then have "is_satisfied inst (AList.update s sg a)"
            using simplify_sound[OF "1.prems"(2) s _ up] by simp
          then show ?thesis using "1.prems"(1) \<open>find_unit_clause inst = Some p\<close> p nc s True ext
            by (auto simp: propagate.simps[of inst a])
        next
          case False
          then have rec: "propagate inst' (AList.update s sg a) = (x, a1)"
            using "1.prems"(1) \<open>find_unit_clause inst = Some p\<close> p nc s
            by (auto simp: propagate.simps[of inst a])
          note IH = "1.IH"[OF \<open>find_unit_clause inst = Some p\<close> p[symmetric] nc s False rec ok fr]
          have le: "map_of a \<subseteq>\<^sub>m map_of a1" using ext IH by (blast intro: map_le_trans)
          have a1s: "map_of r s = Some sg" if "map_of a1 \<subseteq>\<^sub>m map_of r" for r
          proof -
            have "map_of a1 s = Some sg" using IH up by (auto simp: map_le_def dom_def)
            then show ?thesis using that by (auto simp: map_le_def dom_def)
          qed
          show ?thesis
          proof (cases x)
            case (Returned ro)
            then show ?thesis using IH le a1s[of a1] simplify_sound[OF "1.prems"(2) s]
              by (cases ro) auto
          next
            case (Exhausted inst1)
            then show ?thesis using IH le a1s simplify_sound[OF "1.prems"(2) s]
                simplify_consistent[OF s]
              by auto
          qed
        qed
      qed
    qed
  qed
qed

lemma consistent_keys: "consistent inst \<Longrightarrow> keys (clauses inst) \<subseteq> set (symbols inst)"
  by (simp add: consistent_def sorted_symbols_set keys_def)

lemma update_fresh_extends: "map_of a u = None \<Longrightarrow> map_of a \<subseteq>\<^sub>m map_of (AList.update u v a)"
  by (auto simp: map_le_def update_conv')

lemma branch_sound:
  assumes ok: "clauses_ok (clauses inst1)" and s: "simplify inst1 [(u, v)] = Some i"
    and sat: "is_satisfied i r" and le: "map_of (AList.update u v a1) \<subseteq>\<^sub>m map_of r"
    and u: "map_of a1 u = None"
  shows "is_satisfied inst1 r \<and> map_of a1 \<subseteq>\<^sub>m map_of r"
proof -
  have "map_of r u = Some v" using le by (auto simp: map_le_def update_conv')
  then have "is_satisfied inst1 r" using simplify_sound[OF ok s sat] by simp
  moreover have "map_of a1 \<subseteq>\<^sub>m map_of r"
    using update_fresh_extends[OF u, of v] le by (blast intro: map_le_trans)
  ultimately show ?thesis by simp
qed

lemma solve_dpll_sound:
  "clauses_ok (clauses inst) \<Longrightarrow> fresh a (clauses inst) \<Longrightarrow>
   keys (clauses inst) \<subseteq> set (symbols inst) \<Longrightarrow> fst (solve_dpll inst a) = Inr (Some r) \<Longrightarrow>
   is_satisfied inst r \<and> map_of a \<subseteq>\<^sub>m map_of r"
proof (induction inst a arbitrary: r rule: solve_dpll.induct)
  case (1 inst a)
  obtain x a1 where pr: "propagate inst a = (x, a1)" by (cases "propagate inst a")
  note P = propagate_sound[OF pr "1.prems"(1,2)]
  show ?case
  proof (cases x)
    case (Returned ro)
    then show ?thesis using pr P "1.prems"(4) by (auto simp: solve_dpll_Returned)
  next
    case (Exhausted inst1)
    have ok1: "clauses_ok (clauses inst1)" and nu: "find_unit_clause inst1 = None"
      using propagate_Exhausted_ok[OF pr[unfolded Exhausted] "1.prems"(1)] by auto
    have fr1: "fresh a1 (clauses inst1)" and le: "map_of a \<subseteq>\<^sub>m map_of a1"
      and bk: "\<And>r. map_of a1 \<subseteq>\<^sub>m map_of r \<Longrightarrow> is_satisfied inst1 r \<Longrightarrow> is_satisfied inst r"
      and k1: "keys (clauses inst1) \<subseteq> set (symbols inst1)"
      using P Exhausted "1.prems"(3) consistent_keys by auto
    have fin: "is_satisfied inst r \<and> map_of a \<subseteq>\<^sub>m map_of r"
      if "is_satisfied inst1 r \<and> map_of a1 \<subseteq>\<^sub>m map_of r" for r
      using that bk le by (blast intro: map_le_trans)
    show ?thesis
    proof (cases "clauses inst1 = []")
      case True
      then have "r = a1" using pr Exhausted "1.prems"(4) by (simp add: solve_dpll.simps[of inst a])
      moreover have "is_satisfied inst1 a1" using True by (simp add: is_satisfied_iff)
      ultimately show ?thesis using fin by simp
    next
      case ne: False
      then obtain c where c: "c \<in> set (clauses inst1)" by (cases "clauses inst1") auto
      then have "c \<noteq> []" using ok1 by (auto simp: clauses_ok_def)
      then obtain k sg where "(k, sg) \<in> set c" by (cases c) auto
      then have "k \<in> keys (clauses inst1)" using c by (force simp: keys_def)
      then have "k \<in> set (symbols inst1)" "map_of a1 k = None"
        using k1 fr1 by (auto simp: fresh_def)
      then have "find (\<lambda>s. map_of a1 s = None) (symbols inst1) \<noteq> None"
        by (auto simp: find_None_iff)
      then obtain u where fu: "find (\<lambda>s. map_of a1 s = None) (symbols inst1) = Some u" by auto
      then have u: "map_of a1 u = None" by (auto simp: find_Some_iff)
      obtain it where st: "simplify inst1 [(u, 1)] = Some it"
        using simplify_branch_Some[OF ok1 nu] by blast
      obtain ifa where sf: "simplify inst1 [(u, - 1)] = Some ifa"
        using simplify_branch_Some[OF ok1 nu] by blast
      have okt: "clauses_ok (clauses it)" using simplify_clauses_ok[OF ok1 st] .
      have okf: "clauses_ok (clauses ifa)" using simplify_clauses_ok[OF ok1 sf] .
      have frt: "fresh (AList.update u 1 a1) (clauses it)" using simplify_fresh[OF ok1 st fr1] .
      have frf: "fresh (AList.update u (- 1) a1) (clauses ifa)" using simplify_fresh[OF ok1 sf fr1] .
      have kt: "keys (clauses it) \<subseteq> set (symbols it)"
        using simplify_consistent[OF st] by (rule consistent_keys)
      have kf: "keys (clauses ifa) \<subseteq> set (symbols ifa)"
        using simplify_consistent[OF sf] by (rule consistent_keys)
      obtain rt where rt: "fst (solve_dpll it (AList.update u 1 a1)) = Inr rt"
        using solve_dpll_no_error[OF okt] by blast
      show ?thesis
      proof (cases "truthy rt")
        case True
        then have "rt = Some r" using pr Exhausted ne fu st rt "1.prems"(4)
          by (simp add: solve_dpll.simps[of inst a])
        then have "is_satisfied it r \<and> map_of (AList.update u 1 a1) \<subseteq>\<^sub>m map_of r"
          using "1.IH"(1)[OF pr[symmetric] Exhausted ne fu st okt frt kt] rt by simp
        then show ?thesis using branch_sound[OF ok1 st _ _ u] fin by blast
      next
        case False
        then have "fst (solve_dpll ifa (AList.update u (- 1) a1)) = Inr (Some r)"
          using pr Exhausted ne fu st rt sf "1.prems"(4)
          by (simp add: solve_dpll.simps[of inst a])
        then have "is_satisfied ifa r \<and> map_of (AList.update u (- 1) a1) \<subseteq>\<^sub>m map_of r"
          using "1.IH"(2)[OF pr[symmetric] Exhausted ne fu _ False sf okf frf kf] st rt by simp
        then show ?thesis using branch_sound[OF ok1 sf _ _ u] fin by blast
      qed
    qed
  qed
qed

subsection \<open>What a call does to the assignment of its caller\<close>

lemma update_prefix:
  "\<not> (map_of a s \<noteq> None \<and> map_of a s \<noteq> Some sg) \<Longrightarrow> prefix a (AList.update s sg a)"
proof (induction a)
  case Nil
  then show ?case by simp
next
  case (Cons p a)
  then show ?case by (cases p) (auto split: if_splits)
qed

lemma propagate_prefix: "prefix a (snd (propagate inst a))"
proof (induction inst a rule: propagate.induct)
  case (1 inst a)
  show ?case
  proof (cases "find_unit_clause inst")
    case None
    then show ?thesis by (simp add: propagate.simps[of inst a])
  next
    case (Some p)
    obtain s sg where p: "p = (s, sg)" by (cases p)
    show ?thesis
    proof (cases "map_of a s \<noteq> None \<and> map_of a s \<noteq> Some sg")
      case True
      then show ?thesis using Some p by (simp add: propagate.simps[of inst a])
    next
      case nc: False
      have ext: "prefix a (AList.update s sg a)" using nc by (rule update_prefix)
      show ?thesis
      proof (cases "simplify inst [(s, sg)]")
        case None
        then show ?thesis using \<open>find_unit_clause inst = Some p\<close> p nc ext
          by (simp add: propagate.simps[of inst a])
      next
        case (Some inst')
        show ?thesis
        proof (cases "clauses inst' = []")
          case True
          then show ?thesis using \<open>find_unit_clause inst = Some p\<close> p nc ext Some
            by (simp add: propagate.simps[of inst a])
        next
          case False
          have "prefix (AList.update s sg a) (snd (propagate inst' (AList.update s sg a)))"
            using "1.IH"[OF \<open>find_unit_clause inst = Some p\<close> p[symmetric] nc Some False] .
          then have "prefix a (snd (propagate inst' (AList.update s sg a)))"
            using ext by (rule prefix_order.trans[rotated])
          then show ?thesis using \<open>find_unit_clause inst = Some p\<close> p nc Some False
            by (simp add: propagate.simps[of inst a])
        qed
      qed
    qed
  qed
qed

lemma solve_dpll_snd: "snd (solve_dpll inst a) = snd (propagate inst a)"
proof -
  obtain x a1 where pr: "propagate inst a = (x, a1)" by (cases "propagate inst a")
  show ?thesis
  proof (cases x)
    case (Returned r)
    then show ?thesis using pr by (simp add: solve_dpll_Returned)
  next
    case (Exhausted inst1)
    let ?u = "find (\<lambda>s. map_of a1 s = None) (symbols inst1)"
    show ?thesis
    proof (cases "clauses inst1 = [] \<or> ?u = None")
      case True
      then show ?thesis using pr Exhausted by (auto simp: solve_dpll.simps[of inst a])
    next
      case False
      then obtain u where u: "?u = Some u" and ne: "clauses inst1 \<noteq> []" by auto
      let ?rt = "case simplify inst1 [(u, 1)] of None \<Rightarrow> Inl AttributeError
        | Some i \<Rightarrow> fst (solve_dpll i (AList.update u 1 a1))"
      show ?thesis
      proof (cases ?rt)
        case (Inl e)
        then show ?thesis using pr Exhausted u ne by (simp add: solve_dpll.simps[of inst a])
      next
        case (Inr rt)
        then show ?thesis using pr Exhausted u ne
          by (cases "simplify inst1 [(u, - 1)]") (simp_all add: solve_dpll.simps[of inst a])
      qed
    qed
  qed
qed

subsection \<open>Two unit clauses of opposite sign\<close>

lemma find_unit_exists: "c \<in> set cs \<Longrightarrow> length c = 1 \<Longrightarrow> find_unit cs \<noteq> None"
  by (induction cs) auto

lemma simplify_clauses_acc:
  "simplify_clauses a cs acc = Some ncs \<Longrightarrow> set acc \<subseteq> set ncs"
proof (induction cs arbitrary: acc)
  case Nil
  then show ?case by simp
next
  case (Cons c cs)
  then show ?case by (fastforce split: prod.splits bool.splits if_splits)
qed

lemma simplify_clauses_keeps_unit:
  "simplify_clauses a cs acc = Some ncs \<Longrightarrow> [(s, sg)] \<in> set cs \<Longrightarrow> map_of a s = None \<Longrightarrow>
   [(s, sg)] \<in> set ncs"
proof (induction cs arbitrary: acc)
  case Nil
  then show ?case by simp
next
  case (Cons c cs)
  show ?case
  proof (cases "c = [(s, sg)]")
    case True
    then have "simplify_clauses a cs (acc @ [[(s, sg)]]) = Some ncs"
      using Cons.prems(1,3) by simp
    then show ?thesis using simplify_clauses_acc by fastforce
  next
    case False
    then have "[(s, sg)] \<in> set cs" using Cons.prems(2) by simp
    then show ?thesis using Cons.IH[OF _ _ Cons.prems(3)] Cons.prems(1)
      by (auto split: prod.splits bool.splits if_splits)
  qed
qed

lemma simplify_clauses_falsified_unit:
  "[(s, sg)] \<in> set cs \<Longrightarrow> map_of a s = Some v \<Longrightarrow> v \<noteq> sg \<Longrightarrow> simplify_clauses a cs acc = None"
proof (induction cs arbitrary: acc)
  case Nil
  then show ?case by simp
next
  case (Cons c cs)
  show ?case
  proof (cases "c = [(s, sg)]")
    case True
    then show ?thesis using Cons.prems(2,3) by simp
  next
    case False
    then have "simplify_clauses a cs acc' = None" for acc'
      using Cons.IH Cons.prems by simp
    then show ?thesis by (simp split: prod.splits bool.splits)
  qed
qed

lemma propagate_complementary_units:
  "[(s, sg)] \<in> set (clauses inst) \<Longrightarrow> [(s, sg')] \<in> set (clauses inst) \<Longrightarrow> sg \<noteq> sg' \<Longrightarrow>
   fst (propagate inst a) = Returned None"
proof (induction inst a rule: propagate.induct)
  case (1 inst a)
  have "find_unit_clause inst \<noteq> None"
    using find_unit_exists[OF "1.prems"(1)] by (simp add: find_unit_clause_def)
  then obtain t tg where fu: "find_unit_clause inst = Some (t, tg)" by auto
  show ?case
  proof (cases "map_of a t \<noteq> None \<and> map_of a t \<noteq> Some tg")
    case True
    then show ?thesis using fu by (simp add: propagate.simps[of inst a])
  next
    case nc: False
    show ?thesis
    proof (cases "simplify inst [(t, tg)]")
      case None
      then show ?thesis using fu nc by (simp add: propagate.simps[of inst a])
    next
      case (Some inst')
      then obtain ncs where sc: "simplify_clauses [(t, tg)] (clauses inst) [] = Some ncs"
        and cl: "clauses inst' = ncs"
        by (auto simp: simplify_def split: option.splits)
      have ts: "t \<noteq> s"
      proof
        assume "t = s"
        then have "map_of [(t, tg)] s = Some tg" by simp
        moreover have "tg \<noteq> sg \<or> tg \<noteq> sg'" using "1.prems"(3) by auto
        ultimately have "simplify_clauses [(t, tg)] (clauses inst) [] = None"
          using simplify_clauses_falsified_unit "1.prems"(1,2) by blast
        then show False using sc by simp
      qed
      then have n: "map_of [(t, tg)] s = None" by simp
      have u1: "[(s, sg)] \<in> set (clauses inst')"
        using simplify_clauses_keeps_unit[OF sc "1.prems"(1) n] cl by simp
      have u2: "[(s, sg')] \<in> set (clauses inst')"
        using simplify_clauses_keeps_unit[OF sc "1.prems"(2) n] cl by simp
      have ne: "clauses inst' \<noteq> []" using u1 by auto
      have "fst (propagate inst' (AList.update t tg a)) = Returned None"
        using "1.IH"[OF fu refl nc Some ne u1 u2 "1.prems"(3)] .
      then show ?thesis using fu nc Some ne by (simp add: propagate.simps[of inst a])
    qed
  qed
qed

lemma solve_dpll_complementary_units:
  assumes "[(s, sg)] \<in> set (clauses inst)" "[(s, sg')] \<in> set (clauses inst)" "sg \<noteq> sg'"
  shows "fst (solve_dpll inst a) = Inr None"
proof -
  obtain a1 where "propagate inst a = (Returned None, a1)"
    using propagate_complementary_units[OF assms, of a] by (cases "propagate inst a") auto
  then show ?thesis by (simp add: solve_dpll_Returned)
qed

section \<open>Facts about the Davis-Putnam procedure\<close>

subsection \<open>A tautological resolvent is never eliminated\<close>

lemma taut_step:
  assumes "0 < (v::int)"
  shows "variables_of [{v, - v}] = {v}" "({v, - v} - {v}) \<union> ({v, - v} - {- v}) = {v, - v}"
  using assms by (auto simp: variables_of_def)

lemma dp_taut_diverges:
  assumes v: "0 < v" and p: "pick {v} = v"
  shows "dp pick [{v, - v}] = None"
proof -
  have "\<not> (p = pick \<and> c = [{v, - v}])" if "dp p c = Some y" for p c y
    apply (rule dp.raw_induct[OF _ that])
    subgoal premises prems for dp' p c y
    proof
      assume e: "p = pick \<and> c = [{v, - v}]"
      have "dp' pick [{v, - v}] = Some y"
        using prems(2) e v p taut_step[OF v] by (simp split: if_splits)
      then show False using prems(1) by blast
    qed
    done
  then show ?thesis by (cases "dp pick [{v, - v}]") auto
qed

lemma dp_example_diverges:
  assumes "\<forall>S. finite S \<and> S \<noteq> {} \<longrightarrow> pick S \<in> S"
  shows "dp pick [{1, 2}, {- 1, - 2}] = None"
proof -
  have p1: "pick {1} = 1" and p2: "pick {2} = 2" and p12: "pick {1, 2} = 1 \<or> pick {1, 2} = 2"
    using assms[rule_format, of "{1}"] assms[rule_format, of "{2}"] assms[rule_format, of "{1, 2}"]
    by auto
  have vars: "variables_of [{1, 2}, {- 1, - 2}] = {1, 2}" by (auto simp: variables_of_def)
  from p12 show ?thesis
  proof
    assume e: "pick {1, 2} = 1"
    have r: "({1, 2} - {1}) \<union> ({- 1, - 2} - {- 1}) = {2, - 2 :: int}" by auto
    have "dp pick [{1, 2}, {- 1, - 2}] = dp pick [{2, - 2}]"
      by (subst dp.simps) (simp add: vars e r insert_commute)
    then show ?thesis using dp_taut_diverges[of 2 pick] p2 by (simp add: insert_commute)
  next
    assume e: "pick {1, 2} = 2"
    have r: "({1, 2} - {2}) \<union> ({- 1, - 2} - {- 2}) = {1, - 1 :: int}" by auto
    have "dp pick [{1, 2}, {- 1, - 2}] = dp pick [{1, - 1}]"
      by (subst dp.simps) (simp add: vars e r insert_commute)
    then show ?thesis using dp_taut_diverges[of 1 pick] p1 by (simp add: insert_commute)
  qed
qed

lemma dp_empty_clause: "{} \<in> set clause_list \<Longrightarrow> dp pick clause_list = Some False"
  by (subst dp.simps) simp

lemma dp_Min_example: "dp Min [{1, 2}, {- 1, - 2}] = None"
  by (rule dp_example_diverges) simp

text \<open>
  A call whose recursive argument is the clause list it was given never returns. With
  the smallest variable picked first, this happens after one step on a clause list
  that holds two unit clauses of opposite sign.
\<close>

lemma dp_repeats_forever:
  assumes "{} \<notin> set cl" "cl \<noteq> []" "variables_of cl \<noteq> {}"
    and "resolvents_all (pick (variables_of cl))
           (filter (\<lambda>c. pick (variables_of cl) \<in> c) cl)
           (filter (\<lambda>c. - pick (variables_of cl) \<in> c) cl) [] = Some rs"
    and "filter (\<lambda>c. pick (variables_of cl) \<notin> c \<and> - pick (variables_of cl) \<notin> c) cl @ rs = cl"
  shows "dp pick cl = None"
proof -
  have "\<not> (p = pick \<and> c = cl)" if "dp p c = Some y" for p c y
    apply (rule dp.raw_induct[OF _ that])
    subgoal premises prems for dp' p c y
    proof
      assume e: "p = pick \<and> c = cl"
      have "dp' pick cl = Some y"
        using prems(2) e assms by simp
      then show False using prems(1) by blast
    qed
    done
  then show ?thesis by (cases "dp pick cl") auto
qed

lemma dp_units_example: "dp Min [{3}, {- 3}, {1, 2}, {- 1, - 2}] = None"
proof -
  have v1: "variables_of [{3}, {- 3}, {1, 2}, {- 1, - 2}] = {1, 2, 3}"
    by (auto simp: variables_of_def)
  have v2: "variables_of [{3}, {- 3}, {2, - 2}] = {2, 3}"
    by (auto simp: variables_of_def)
  have r1: "({1, 2} - {1}) \<union> ({- 1, - 2} - {- 1}) = {2, - 2 :: int}" by auto
  have r2: "({2, - 2} - {2}) \<union> ({2, - 2} - {- 2}) = {2, - 2 :: int}" by auto
  have "dp Min [{3}, {- 3}, {1, 2}, {- 1, - 2}] = dp Min [{3}, {- 3}, {2, - 2}]"
    by (subst dp.simps) (simp add: v1 r1 insert_commute)
  moreover have "dp Min [{3}, {- 3}, {2, - 2}] = None"
    by (rule dp_repeats_forever[where rs = "[{2, - 2}]"]) (simp_all add: v2 r2 insert_commute)
  ultimately show ?thesis by simp
qed

section \<open>Facts about resolution and the conversion\<close>

lemma find_single: "set xs = {k} \<Longrightarrow> P k \<Longrightarrow> find P xs = Some k"
  by (cases xs) auto

lemma resolve_units:
  assumes "set (iter {k}) = {k}"
  shows "resolve iter {k} {- k} = Some {}"
  using find_single[OF assms, of "\<lambda>lit. - lit \<in> {- k}"] by (simp add: resolve_def)

lemma resolve_row_None:
  "c2 \<in> set rest \<Longrightarrow> resolve iter c1 c2 = Some {} \<Longrightarrow> resolve_row iter known c1 rest new = None"
  by (induction rest arbitrary: new) (auto split: option.splits)

lemma resolve_pairs_None:
  assumes "a \<in> set xs" "b \<in> set xs" "a \<noteq> b"
    "resolve iter a b = Some {}" "resolve iter b a = Some {}"
  shows "resolve_pairs iter known xs new = None"
  using assms(1,2)
proof (induction xs arbitrary: new)
  case Nil
  then show ?case by simp
next
  case (Cons c xs)
  show ?case
  proof (cases "resolve_row iter known c xs new")
    case None
    then show ?thesis by simp
  next
    case (Some new')
    have "c \<noteq> a" using Some resolve_row_None[of b xs iter a known new] Cons.prems assms(3,4) by auto
    moreover have "c \<noteq> b" using Some resolve_row_None[of a xs iter b known new] Cons.prems assms(3,5) by auto
    ultimately have "a \<in> set xs" "b \<in> set xs" using Cons.prems by auto
    then show ?thesis using Some Cons.IH by simp
  qed
qed

lemma resolution_units:
  assumes "{k} \<in> set clause_list" "{- k} \<in> set clause_list" "k \<noteq> 0"
    "set (enum (set clause_list)) = set clause_list"
    "set (iter {k}) = {k}" "set (iter {- k}) = {- k}"
  shows "resolution enum iter clause_list = Some ''Unsatisfiable''"
proof -
  have ne: "{k} \<noteq> {- k}" using assms(3) by auto
  have "resolve iter {- k} {k} = Some {}" using resolve_units[of iter "- k"] assms(6) by simp
  then have "resolve_pairs iter (set clause_list) (enum (set clause_list)) {} = None"
    using resolve_pairs_None[OF _ _ ne resolve_units[of iter k]] assms(1,2,4,5) by simp
  then show ?thesis unfolding resolution_def by (subst saturate.simps) simp
qed

lemma update_values:
  "(k', v') \<in> set (AList.update k v al) \<Longrightarrow> (k', v') = (k, v) \<or> (k', v') \<in> set al"
  by (induction al) (auto split: if_splits)

lemma symbol_to_int_fold_pos:
  "\<forall>(k, v) \<in> set d. 0 < v \<Longrightarrow>
   \<forall>(k, v) \<in> set (foldl (\<lambda>d (i, s). AList.update s (int i + 1) d) d ps). 0 < v"
proof (induction ps arbitrary: d)
  case Nil
  then show ?case by simp
next
  case (Cons p ps)
  obtain i s where p: "p = (i, s)" by (cases p)
  have "\<forall>(k, v) \<in> set (AList.update s (int i + 1) d). 0 < v"
    using Cons.prems update_values[of _ _ s "int i + 1" d] by fastforce
  from Cons.IH[OF this] show ?case by (simp add: p)
qed

lemma symbol_to_int_pos: "map_of (symbol_to_int syms) s = Some i \<Longrightarrow> 0 < i"
  using symbol_to_int_fold_pos[of "[]" "enumerate 0 syms"] map_of_SomeD[of "symbol_to_int syms" s i]
  by (fastforce simp: symbol_to_int_def)

lemma convert_clauses_acc:
  "convert_clauses d cs acc = Inr cl \<Longrightarrow> set acc \<subseteq> set cl"
proof (induction cs arbitrary: acc)
  case Nil
  then show ?case by simp
next
  case (Cons c cs)
  then show ?case by (fastforce split: sum.splits)
qed

lemma convert_clauses_mem:
  "convert_clauses d cs acc = Inr cl \<Longrightarrow> c \<in> set cs \<Longrightarrow>
   \<exists>lits. convert_clause d c {} = Inr lits \<and> lits \<in> set cl"
proof (induction cs arbitrary: acc)
  case Nil
  then show ?case by simp
next
  case (Cons c' cs)
  obtain lits where l: "convert_clause d c' {} = Inr lits"
    and r: "convert_clauses d cs (acc @ [lits]) = Inr cl"
    using Cons.prems(1) by (auto split: sum.splits)
  show ?case
  proof (cases "c = c'")
    case True
    then show ?thesis using l convert_clauses_acc[OF r] by auto
  next
    case False
    then show ?thesis using Cons.IH[OF r] Cons.prems(2) by auto
  qed
qed

lemma convert_unit:
  assumes "convert_to_clause_list inst = Inr cl" "[(s, sg)] \<in> set (clauses inst)"
  shows "\<exists>i. map_of (symbol_to_int (symbols inst)) s = Some i \<and> 0 < i \<and> {i * sg} \<in> set cl"
proof -
  obtain lits where l: "convert_clause (symbol_to_int (symbols inst)) [(s, sg)] {} = Inr lits"
    and m: "lits \<in> set cl"
    using convert_clauses_mem[OF assms(1)[unfolded convert_to_clause_list_def] assms(2)] by blast
  then obtain i where "map_of (symbol_to_int (symbols inst)) s = Some i" "lits = {i * sg}"
    by (auto split: option.splits)
  then show ?thesis using m symbol_to_int_pos by blast
qed

lemma convert_empty:
  assumes "convert_to_clause_list inst = Inr cl" "[] \<in> set (clauses inst)"
  shows "{} \<in> set cl"
  using convert_clauses_mem[OF assms(1)[unfolded convert_to_clause_list_def] assms(2)] by auto

section \<open>Facts about the parsers\<close>

lemma update_not_Nil: "AList.update k v al \<noteq> []"
  by (cases al) auto

lemma from_dimacs_loop_nonempty:
  "from_dimacs_loop vm lits acc = Inr c \<Longrightarrow> lits \<noteq> [] \<or> acc \<noteq> [] \<Longrightarrow> c \<noteq> []"
proof (induction lits arbitrary: acc)
  case Nil
  then show ?case by simp
next
  case (Cons l lits)
  then show ?case by (auto split: option.splits simp: update_not_Nil)
qed

lemma from_dimacs_loop_dict_inv:
  "from_dimacs_loop vm lits acc = Inr c \<Longrightarrow> dict_inv acc \<Longrightarrow> dict_inv c"
proof (induction lits arbitrary: acc)
  case Nil
  then show ?case by simp
next
  case (Cons l lits)
  then show ?case by (auto split: option.splits simp: dict_inv_def distinct_update)
qed

lemma from_dimacs_clause:
  "from_dimacs lits vm = Inr c \<Longrightarrow> lits \<noteq> [] \<Longrightarrow> c \<noteq> [] \<and> dict_inv c"
  using from_dimacs_loop_nonempty[of vm lits "[]" c] from_dimacs_loop_dict_inv[of vm lits "[]" c]
  by (simp add: from_dimacs_def dict_inv_def)

lemma parse_line_cases:
  assumes "parse_line st raw = Inr st'"
  shows "st' = st \<or> (\<exists>n. st' = st\<lparr>variable_map := declare_variables n (variable_map st)\<rparr>) \<or>
    (\<exists>lits c. lits \<noteq> [] \<and> from_dimacs lits (variable_map st) = Inr c \<and>
       st' = st\<lparr>self_clauses := self_clauses st @ [c],
                  self_symbols := self_symbols st \<union> fst ` set c\<rparr>)"
proof (cases "prefix ''c'' (strip raw)")
  case True
  then show ?thesis using assms by (simp add: parse_line_def)
next
  case nc: False
  show ?thesis
  proof (cases "prefix ''p cnf'' (strip raw)")
    case True
    then show ?thesis using assms nc
      by (auto simp add: parse_line_def Let_def split: if_splits option.splits)
  next
    case np: False
    show ?thesis
    proof (cases "strip raw = []")
      case True
      then show ?thesis using assms nc np by (simp add: parse_line_def)
    next
      case ne: False
      then obtain lits where il: "int_literals (split (strip raw)) = Inr lits"
        using assms nc np by (simp add: parse_line_def split: sum.splits)
      show ?thesis
      proof (cases "lits = []")
        case True
        then show ?thesis using assms nc np ne il by (simp add: parse_line_def)
      next
        case False
        then show ?thesis using assms nc np ne il
          by (auto simp add: parse_line_def split: sum.splits)
      qed
    qed
  qed
qed

lemma parse_line_inv:
  assumes "parse_line st raw = Inr st'" "parse_inv st"
  shows "parse_inv st'"
proof -
  consider (skip) "st' = st"
    | (pre) n where "st' = st\<lparr>variable_map := declare_variables n (variable_map st)\<rparr>"
    | (cl) lits c where "lits \<noteq> []" "from_dimacs lits (variable_map st) = Inr c"
        "st' = st\<lparr>self_clauses := self_clauses st @ [c],
                  self_symbols := self_symbols st \<union> fst ` set c\<rparr>"
    using parse_line_cases[OF assms(1)] by blast
  then show ?thesis
  proof cases
    case skip
    then show ?thesis using assms(2) by simp
  next
    case pre
    then show ?thesis using assms(2) by (simp add: parse_inv_def)
  next
    case cl
    then show ?thesis using assms(2) from_dimacs_clause[OF cl(2,1)]
      by (auto simp: parse_inv_def clauses_ok_def keys_def)
  qed
qed

lemma parse_lines_inv: "parse_lines st lines = Inr st' \<Longrightarrow> parse_inv st \<Longrightarrow> parse_inv st'"
proof (induction lines arbitrary: st)
  case Nil
  then show ?case by simp
next
  case (Cons l lines)
  then show ?case by (auto split: sum.splits dest: parse_line_inv)
qed

lemma from_dimacs_file_well_formed:
  assumes "from_dimacs_file lines = Inr inst"
  shows "well_formed inst"
proof -
  obtain st where st: "parse_lines \<lparr>variable_map = Map.empty, self_clauses = [], self_symbols = {}\<rparr> lines = Inr st"
    and inst: "inst = \<lparr>symbols = (if self_symbols st \<noteq> {} then sorted_list_of_set (self_symbols st) else []),
               clauses = self_clauses st\<rparr>"
    using assms by (auto simp: from_dimacs_file_def split: sum.splits)
  have "parse_inv \<lparr>variable_map = Map.empty, self_clauses = [], self_symbols = {}\<rparr>"
    by (simp add: parse_inv_def clauses_ok_def keys_def)
  then have pi: "parse_inv st" using st parse_lines_inv by blast
  then have "sorted_symbols (self_clauses st) = sorted_list_of_set (self_symbols st)"
    by (simp add: parse_inv_def sorted_symbols_def keys_def)
  moreover have "sorted_list_of_set (self_symbols st) = []" if "self_symbols st = {}"
    using that by simp
  ultimately show ?thesis using pi
    by (simp add: inst well_formed_def parse_inv_def)
qed

lemma int_literals_zero: "int_literals [''0''] = Inr []"
  by simp

lemma dimacs_loop_nonempty:
  "dimacs_loop lines acc = Inr cl \<Longrightarrow> {} \<notin> set acc \<Longrightarrow> {} \<notin> set cl"
proof (induction lines arbitrary: acc)
  case Nil
  then show ?case by simp
next
  case (Cons l lines)
  show ?case
  proof (cases "prefix ''c'' (strip l) \<or> strip l = [] \<or> prefix ''p'' (strip l)")
    case True
    then show ?thesis using Cons by (simp add: Let_def)
  next
    case False
    then obtain lits where il: "int_literals (split (strip l)) = Inr lits"
      using Cons.prems(1) by (auto simp: Let_def split: sum.splits)
    show ?thesis
    proof (cases "lits = []")
      case True
      then show ?thesis using Cons False il by (simp add: Let_def)
    next
      case ne: False
      then have "{} \<notin> set (acc @ [set (sort lits)])" using Cons.prems(2) by simp
      moreover have "dimacs_loop lines (acc @ [set (sort lits)]) = Inr cl"
        using Cons.prems(1) False il ne by (simp add: Let_def)
      ultimately show ?thesis using Cons.IH by blast
    qed
  qed
qed

lemma strip_zero: "strip ''0'' = ''0''"
  by (simp add: strip_def is_space_def)

lemma split_zero: "split ''0'' = [''0'']"
  by (simp add: split_def is_space_def)

lemma parse_line_zero: "strip raw = ''0'' \<Longrightarrow> parse_line st raw = Inr st"
  by (simp add: parse_line_def split_zero)

lemma dimacs_loop_zero:
  "strip raw = ''0'' \<Longrightarrow> dimacs_loop (raw # lines) acc = dimacs_loop lines acc"
  by (simp add: split_zero)

subsection \<open>A literal that the preamble does not declare\<close>

lemma fold_upd_apply:
  "fold (\<lambda>i m. m(i \<mapsto> f i)) xs m k = (if k \<in> set xs then Some (f k) else m k)"
  by (induction xs arbitrary: m) auto

lemma declare_variables_apply:
  "declare_variables n Map.empty i = (if 1 \<le> i \<and> i \<le> n then Some (nat i) else None)"
  by (simp add: declare_variables_def fold_upd_apply)

lemma from_dimacs_loop_undefined:
  "\<forall>g \<in> set good. vm (abs g) \<noteq> None \<Longrightarrow> vm (abs l) = None \<Longrightarrow>
   from_dimacs_loop vm (good @ l # rest) acc = Inl (ValueError (Undefined_variable l))"
  by (induction good arbitrary: acc) auto

lemma parse_lines_append:
  "parse_lines st (pre @ post) =
     (case parse_lines st pre of Inl e \<Rightarrow> Inl e | Inr st' \<Rightarrow> parse_lines st' post)"
  by (induction pre arbitrary: st) (auto split: sum.splits)

lemma parse_line_undefined:
  assumes "variable_map st = declare_variables nvars Map.empty"
    and "\<not> prefix ''c'' (strip line)" "\<not> prefix ''p cnf'' (strip line)"
    and "int_literals (split (strip line)) = Inr (good @ l # rest)"
    and "\<forall>g \<in> set good. 1 \<le> abs g \<and> abs g \<le> nvars"
    and "\<not> (1 \<le> abs l \<and> abs l \<le> nvars)"
  shows "parse_line st line = Inl (ValueError (Undefined_variable l))"
proof -
  have ne: "strip line \<noteq> []" using assms(4) by (auto simp: split_def)
  have "from_dimacs (good @ l # rest) (variable_map st) = Inl (ValueError (Undefined_variable l))"
    unfolding from_dimacs_def assms(1)
    using assms(5,6) by (intro from_dimacs_loop_undefined) (auto simp: declare_variables_apply)
  then show ?thesis using assms(2,3,4) ne by (simp add: parse_line_def)
qed

subsection \<open>Decimal digits, written and read\<close>

lemma digit_char_props:
  assumes "d < 10"
  shows "is_digit (digit_char d)" "digit_value (digit_char d) = d"
    "\<not> is_space (digit_char d)" "digit_char d \<noteq> CHR ''x''" "digit_char d \<noteq> CHR ''_''"
    "digit_char d \<noteq> CHR ''-''" "digit_char d \<noteq> CHR ''+''"
proof -
  have o: "(of_char (digit_char d) :: nat) = 48 + d"
    using assms by (simp add: digit_char_def)
  show "is_digit (digit_char d)" using o assms by (simp add: is_digit_def)
  show "digit_value (digit_char d) = d" using o by (simp add: digit_value_def)
  have ne: "digit_char d \<noteq> c" if "(of_char c :: nat) < 48 \<or> 57 < (of_char c :: nat)" for c
    using o assms that by auto
  show "\<not> is_space (digit_char d)"
    unfolding is_space_def using ne by (auto simp del: of_char_of)
  show "digit_char d \<noteq> CHR ''x''" "digit_char d \<noteq> CHR ''_''"
    "digit_char d \<noteq> CHR ''-''" "digit_char d \<noteq> CHR ''+''"
    by (rule ne, simp)+
qed

lemma py_str_digits: "plain_digits (py_str n) \<and> py_str n \<noteq> []"
proof (induction n rule: py_str.induct)
  case (1 n)
  show ?case
  proof (cases "n < 10")
    case True
    then show ?thesis using digit_char_props[of n]
      by (subst (1 2) py_str.simps) (simp add: plain_digits_def)
  next
    case False
    have "n mod 10 < 10" by simp
    then show ?thesis using False "1.IH" digit_char_props[of "n mod 10"]
      by (subst (1 2) py_str.simps) (simp add: plain_digits_def)
  qed
qed

lemma read_digits_plain:
  "plain_digits ds \<Longrightarrow> read_digits n ds = Some (foldl (\<lambda>a c. 10 * a + digit_value c) n ds)"
  by (induction n ds rule: read_digits.induct) (auto simp: plain_digits_def)

lemma py_str_value: "foldl (\<lambda>a c. 10 * a + digit_value c) 0 (py_str n) = n"
proof (induction n rule: py_str.induct)
  case (1 n)
  show ?case
  proof (cases "n < 10")
    case True
    then show ?thesis using digit_char_props(2)[of n] by (subst py_str.simps) simp
  next
    case False
    have "n mod 10 < 10" by simp
    then show ?thesis using False "1.IH" digit_char_props(2)[of "n mod 10"]
      by (subst py_str.simps) simp
  qed
qed

lemma read_nat_py_str: "read_nat (py_str n) = Some n"
proof -
  obtain c cs where e: "py_str n = c # cs" using py_str_digits[of n] by (cases "py_str n") auto
  have pd: "plain_digits (c # cs)" using py_str_digits[of n] e by simp
  then have "read_digits (digit_value c) cs = Some (foldl (\<lambda>a c. 10 * a + digit_value c) 0 (c # cs))"
    using read_digits_plain[of cs "digit_value c"] by (simp add: plain_digits_def)
  then show ?thesis using pd py_str_value[of n] e by (simp add: read_nat_def plain_digits_def)
qed

lemma py_int_py_str: "py_int (py_str n) = Some (int n)"
proof -
  obtain c cs where e: "py_str n = c # cs" using py_str_digits[of n] by (cases "py_str n") auto
  have "c \<noteq> CHR ''-''" "c \<noteq> CHR ''+''" using py_str_digits[of n] e by (auto simp: plain_digits_def)
  then show ?thesis using read_nat_py_str[of n] e by (simp add: py_int_def)
qed

lemma py_int_minus_py_str: "py_int (CHR ''-'' # py_str n) = Some (- int n)"
  by (simp add: py_int_def read_nat_py_str)

lemma unname_token:
  "unname (token (s, sg)) = (if sg = - 1 then ''-'' else []) @ py_str s"
proof -
  have "filter (\<lambda>ch. ch \<noteq> CHR ''x'') (py_str s) = py_str s"
    using py_str_digits[of s] by (auto simp: plain_digits_def filter_id_conv)
  then show ?thesis by (simp add: unname_def token_def symbol_name_def)
qed

lemma py_int_unname_token:
  "sg = 1 \<or> sg = - 1 \<Longrightarrow> py_int (unname (token (s, sg))) = Some (literal_of (s, sg))"
  by (auto simp: unname_token py_int_py_str py_int_minus_py_str literal_of_def)

lemma unname_token_not_zero:
  assumes "1 \<le> s"
  shows "unname (token (s, sg)) \<noteq> ''0''"
proof
  assume z: "unname (token (s, sg)) = ''0''"
  then have "py_str s = ''0''" by (auto simp: unname_token split: if_splits)
  then have "read_nat ''0'' = Some s" using read_nat_py_str[of s] by simp
  then show False using assms by (simp add: read_nat_def is_digit_def digit_value_def)
qed

subsection \<open>Splitting a formatted clause\<close>

lemma token_word: "token p \<noteq> [] \<and> (\<forall>c \<in> set (token p). \<not> is_space c)"
proof -
  obtain s sg where p: "p = (s, sg)" by (cases p)
  have "\<not> is_space CHR ''-''" "\<not> is_space CHR ''x''" by (simp_all add: is_space_def)
  then show ?thesis using py_str_digits[of s]
    by (auto simp: p token_def symbol_name_def plain_digits_def)
qed

lemma split_from_word:
  "\<forall>c \<in> set w. \<not> is_space c \<Longrightarrow> split_from word (w @ rest) = split_from (word @ w) rest"
  by (induction w arbitrary: word) auto

lemma split_join:
  "\<forall>t \<in> set ts. t \<noteq> [] \<and> (\<forall>c \<in> set t. \<not> is_space c) \<Longrightarrow> split (join '' '' ts) = ts"
proof (induction "'' ''" ts rule: join.induct)
  case 1
  then show ?case by (simp add: split_def)
next
  case (2 t)
  then show ?case using split_from_word[of t "[]" "[]"] by (simp add: split_def)
next
  case (3 t v va)
  have sp: "is_space CHR '' ''" by (simp add: is_space_def)
  have "split (join '' '' (t # v # va)) = split_from t (CHR '' '' # join '' '' (v # va))"
    using split_from_word[of t "[]" "CHR '' '' # join '' '' (v # va)"] 3(2)
    by (simp add: split_def)
  also have "\<dots> = t # split (join '' '' (v # va))"
    using 3(2) sp by (simp add: split_def)
  finally show ?case using 3 by simp
qed

lemma split_clause_str: "split (clause_str c) = map token c"
  unfolding clause_str_def by (rule split_join) (auto simp: token_word)

subsection \<open>The clauses the parser makes\<close>

lemma from_dimacs_loop_entries:
  "from_dimacs_loop (declare_variables nvars Map.empty) lits acc = Inr c \<Longrightarrow>
   \<forall>p \<in> set acc. parsed_entry nvars p \<Longrightarrow> \<forall>p \<in> set c. parsed_entry nvars p"
proof (induction lits arbitrary: acc)
  case Nil
  then show ?case by simp
next
  case (Cons l lits)
  from Cons.prems(1) obtain s where s: "declare_variables nvars Map.empty (abs l) = Some s"
    and r: "from_dimacs_loop (declare_variables nvars Map.empty) lits
              (AList.update s (if l > 0 then 1 else - 1) acc) = Inr c"
    by (auto split: option.splits)
  have "parsed_entry nvars (s, if l > 0 then 1 else - 1)"
    using s by (auto simp: declare_variables_apply parsed_entry_def split: if_splits)
  then have "\<forall>p \<in> set (AList.update s (if l > 0 then 1 else - 1) acc). parsed_entry nvars p"
    using Cons.prems(2) update_values[of _ _ s "if l > 0 then 1 else - 1" acc] by fastforce
  from Cons.IH[OF r this] show ?case .
qed

lemma from_dimacs_loop_literals:
  "dict_inv c \<Longrightarrow> \<forall>p \<in> set c. parsed_entry nvars p \<Longrightarrow> fst ` set acc \<inter> fst ` set c = {} \<Longrightarrow>
   from_dimacs_loop (declare_variables nvars Map.empty) (map literal_of c) acc = Inr (acc @ c)"
proof (induction c arbitrary: acc)
  case Nil
  then show ?case by simp
next
  case (Cons p c)
  obtain s sg where p: "p = (s, sg)" by (cases p)
  have e: "1 \<le> s" "int s \<le> nvars" "sg = 1 \<or> sg = - 1"
    using Cons.prems(2) by (auto simp: p parsed_entry_def)
  have vm: "declare_variables nvars Map.empty (abs (literal_of (s, sg))) = Some s"
    using e by (auto simp: declare_variables_apply literal_of_def)
  have sgn: "(if literal_of (s, sg) > 0 then 1 else - 1) = sg"
    using e by (auto simp: literal_of_def)
  have fr: "s \<notin> fst ` set acc" using Cons.prems(3) by (auto simp: p)
  have d: "dict_inv c" and en: "\<forall>p \<in> set c. parsed_entry nvars p"
    and dj: "fst ` set (acc @ [(s, sg)]) \<inter> fst ` set c = {}"
    using Cons.prems by (auto simp: p dict_inv_def)
  show ?case using Cons.IH[OF d en dj] vm sgn update_fresh[OF fr, of sg]
    by (simp add: p)
qed

lemma from_dimacs_loop_defined:
  "\<forall>l \<in> set lits. vm (abs l) \<noteq> None \<Longrightarrow> \<exists>c. from_dimacs_loop vm lits acc = Inr c"
  by (induction lits arbitrary: acc) auto

lemma from_dimacs_loop_set:
  "from_dimacs_loop vm lits acc = Inr c \<Longrightarrow>
   set c \<subseteq> set acc \<union> {(s, if l > 0 then 1 else - 1) | s l. l \<in> set lits \<and> vm (abs l) = Some s}"
proof (induction lits arbitrary: acc)
  case Nil
  then show ?case by simp
next
  case (Cons l lits)
  from Cons.prems obtain s where s: "vm (abs l) = Some s"
    and r: "from_dimacs_loop vm lits (AList.update s (if l > 0 then 1 else - 1) acc) = Inr c"
    by (auto split: option.splits)
  have "set (AList.update s (if l > 0 then 1 else - 1) acc)
      \<subseteq> insert (s, if l > 0 then 1 else - 1) (set acc)"
    using update_values[of _ _ s "if l > 0 then 1 else - 1" acc] by fastforce
  then show ?case using Cons.IH[OF r] s by fastforce
qed

lemma from_dimacs_loop_keys:
  "from_dimacs_loop vm lits acc = Inr c \<Longrightarrow>
   fst ` set acc \<union> {s. \<exists>l \<in> set lits. vm (abs l) = Some s} \<subseteq> fst ` set c"
proof (induction lits arbitrary: acc)
  case Nil
  then show ?case by simp
next
  case (Cons l lits)
  from Cons.prems obtain s where s: "vm (abs l) = Some s"
    and r: "from_dimacs_loop vm lits (AList.update s (if l > 0 then 1 else - 1) acc) = Inr c"
    by (auto split: option.splits)
  have "fst ` set (AList.update s (if l > 0 then 1 else - 1) acc) = insert s (fst ` set acc)"
    using dom_update[of s "if l > 0 then 1 else - 1" acc] by (simp add: dom_map_of_conv_image_fst)
  then show ?case using Cons.IH[OF r] s by auto
qed

lemma reorder_same_mapping:
  assumes c: "dict_inv c" "\<forall>p \<in> set c. parsed_entry nvars p"
    and ls: "set lits = set (map literal_of c)"
  shows "\<exists>c'. from_dimacs lits (declare_variables nvars Map.empty) = Inr c' \<and> map_of c' = map_of c"
proof -
  let ?vm = "declare_variables nvars Map.empty"
  have lit: "?vm (abs (literal_of (s, sg))) = Some s \<and> (if literal_of (s, sg) > 0 then 1 else - 1) = sg"
    if "(s, sg) \<in> set c" for s sg
    using c(2) that by (fastforce simp: parsed_entry_def declare_variables_apply literal_of_def)
  have "\<forall>l \<in> set lits. ?vm (abs l) \<noteq> None" using ls lit by fastforce
  then obtain c' where c': "from_dimacs_loop ?vm lits [] = Inr c'"
    using from_dimacs_loop_defined by blast
  have sub: "set c' \<subseteq> set c"
  proof
    fix p assume "p \<in> set c'"
    then obtain s l where p: "p = (s, if l > 0 then 1 else - 1)" and l: "l \<in> set lits" "?vm (abs l) = Some s"
      using from_dimacs_loop_set[OF c'] by auto
    obtain s' sg' where q: "(s', sg') \<in> set c" "l = literal_of (s', sg')" using l(1) ls by auto
    then show "p \<in> set c" using lit[OF q(1)] l(2) p by auto
  qed
  have ks: "fst ` set c \<subseteq> fst ` set c'"
  proof
    fix s assume "s \<in> fst ` set c"
    then obtain sg where m: "(s, sg) \<in> set c" by auto
    then have "literal_of (s, sg) \<in> set lits" using ls by auto
    then show "s \<in> fst ` set c'" using from_dimacs_loop_keys[OF c'] lit[OF m] by blast
  qed
  have d': "dict_inv c'" using from_dimacs_loop_dict_inv[OF c'] by (simp add: dict_inv_def)
  have "map_of c' k = map_of c k" for k
  proof (cases "k \<in> fst ` set c")
    case True
    then obtain v where "(k, v) \<in> set c'" using ks by auto
    then show ?thesis using sub c(1) d' by (auto simp: dict_inv_def)
  next
    case False
    then have "k \<notin> fst ` set c'" using sub by auto
    then have "map_of c' k = None" "map_of c k = None"
      using False by (simp_all add: map_of_eq_None_iff)
    then show ?thesis by simp
  qed
  then show ?thesis using c' by (auto simp: from_dimacs_def)
qed

lemma int_literals_tokens:
  "\<forall>p \<in> set c. parsed_entry nvars p \<Longrightarrow>
   int_literals (map unname (map token c)) = Inr (map literal_of c)"
proof (induction c)
  case Nil
  then show ?case by simp
next
  case (Cons p c)
  obtain s sg where p: "p = (s, sg)" by (cases p)
  have e: "1 \<le> s" "sg = 1 \<or> sg = - 1" using Cons.prems by (auto simp: p parsed_entry_def)
  show ?case using Cons unname_token_not_zero[OF e(1), of sg] py_int_unname_token[OF e(2), of s]
    by (simp add: p)
qed

lemma parsed_clause:
  assumes "from_dimacs literals (declare_variables nvars Map.empty) = Inr c"
  shows "dict_inv c" "\<forall>p \<in> set c. parsed_entry nvars p"
  using assms from_dimacs_loop_dict_inv[of _ literals "[]" c]
    from_dimacs_loop_entries[of nvars literals "[]" c]
  by (simp_all add: from_dimacs_def dict_inv_def)

section \<open>The claims\<close>

subsection \<open>Examples\<close>

text \<open>
  The formula of \<^verbatim>\<open>p cnf 2 2 / 1 2 0 / -1 -2 0\<close> and other inputs that the theorems
  below are evaluated on, and the sorted symbol list as a list computation.
\<close>

lemma sorted_symbols_code: "sorted_symbols cs = sort (remdups (concat (map (map fst) cs)))"
proof -
  have "(\<Union>c \<in> set cs. fst ` set c) = set (concat (map (map fst) cs))" by auto
  then have "sorted_symbols cs = sorted_list_of_set (set (concat (map (map fst) cs)))"
    by (simp only: sorted_symbols_def)
  then show ?thesis by (simp only: sorted_list_of_set_sort_remdups)
qed

lemma example1_well_formed:
  "well_formed \<lparr>symbols = [1, 2], clauses = [[(1, 1), (2, 1)], [(1, - 1), (2, - 1)]]\<rparr>"
  by (simp add: well_formed_def clauses_ok_def dict_inv_def sorted_symbols_code)

lemma example1_solve:
  "fst (solve_dpll \<lparr>symbols = [1, 2], clauses = [[(1, 1), (2, 1)], [(1, - 1), (2, - 1)]]\<rparr> [])
     = Inr (Some [(1, 1), (2, - 1)])"
  by (simp add: solve_dpll.simps propagate.simps find_unit_clause_def simplify_def
      sorted_symbols_code truthy_def)

lemma example1_convert:
  "convert_to_clause_list \<lparr>symbols = [1, 2], clauses = [[(1, 1), (2, 1)], [(1, - 1), (2, - 1)]]\<rparr>
     = Inr [{1, 2}, {- 1, - 2}]"
  by (simp add: convert_to_clause_list_def symbol_to_int_def insert_commute)

lemma example1_resolution:
  "resolution sorted_known sorted_list_of_set [{1, 2}, {- 1, - 2}] = Some ''Satisfiable''"
  by code_simp

lemma sorted_known_units: "sorted_known {{1}, {- 1}} = [{- 1}, {1}]"
  by code_simp

lemma example1_parse:
  "from_dimacs_file [''p cnf 2 2'', ''1 2 0'', ''0'', ''-1 -2 0'']
     = Inr \<lparr>symbols = [1, 2], clauses = [[(1, 1), (2, 1)], [(1, - 1), (2, - 1)]]\<rparr>"
  by code_simp

lemma example1_dimacs:
  "dimacs [''p cnf 2 2'', ''1 2 0'', ''0'', ''-1 -2 0''] = Inr [{1, 2}, {- 2, - 1}]"
  by code_simp

lemma example_preamble:
  "parse_lines \<lparr>variable_map = Map.empty, self_clauses = [], self_symbols = {}\<rparr> [''p cnf 2 1'']
     = Inr \<lparr>variable_map = declare_variables 2 Map.empty, self_clauses = [], self_symbols = {}\<rparr>"
  by (simp add: parse_line_def strip_def split_def is_space_def py_int_def read_nat_def
      is_digit_def digit_value_def)

lemma example_line: "int_literals (split (strip ''1 -3 0'')) = Inr ([1] @ (- 3) # [])"
  by code_simp

lemma example_line_kind: "\<not> prefix ''c'' (strip ''1 -3 0'') \<and> \<not> prefix ''p cnf'' (strip ''1 -3 0'')"
  by code_simp

lemma example_clause: "from_dimacs [1, - 2] (declare_variables 2 Map.empty) = Inr [(1, 1), (2, - 1)]"
  by code_simp

lemma scenario1_parse:
  "from_dimacs_file [''p cnf 2 2'', ''1 2 0'', ''-1 -2 0'']
     = Inr \<lparr>symbols = [1, 2], clauses = [[(1, 1), (2, 1)], [(1, - 1), (2, - 1)]]\<rparr>"
  by code_simp

subsection \<open>Claim C1\<close>

text \<open>
  Claim C1: the three solvers return the same verdict on every well-formed formula.
  The code does not do so on the formula \<^verbatim>\<open>p cnf 2 2 / 1 2 0 / -1 -2 0\<close>: resolution
  answers \<^verbatim>\<open>Satisfiable\<close> and \<^verbatim>\<open>solve_dpll\<close> returns the assignment
  \<^verbatim>\<open>{x1: 1, x2: -1}\<close>, but \<^verbatim>\<open>dp\<close> on the converted clause list never returns a verdict
  (\<open>dp_example_diverges\<close>: whichever variable it picks first).
\<close>

theorem C1_solvers_disagree:
  "from_dimacs_file [''p cnf 2 2'', ''1 2 0'', ''-1 -2 0'']
     = Inr \<lparr>symbols = [1, 2], clauses = [[(1, 1), (2, 1)], [(1, - 1), (2, - 1)]]\<rparr> \<and>
   convert_to_clause_list \<lparr>symbols = [1, 2], clauses = [[(1, 1), (2, 1)], [(1, - 1), (2, - 1)]]\<rparr>
     = Inr [{1, 2}, {- 1, - 2}] \<and>
   dp Min [{1, 2}, {- 1, - 2}] = None \<and>
   resolution sorted_known sorted_list_of_set [{1, 2}, {- 1, - 2}] = Some ''Satisfiable'' \<and>
   fst (solve_dpll \<lparr>symbols = [1, 2], clauses = [[(1, 1), (2, 1)], [(1, - 1), (2, - 1)]]\<rparr> [])
     = Inr (Some [(1, 1), (2, - 1)])"
  using scenario1_parse example1_convert example1_resolution example1_solve
    dp_example_diverges[of Min]
  by simp

subsection \<open>Claim C2\<close>

text \<open>
  Claim C2 fails for a formula that holds the empty clause itself: resolution answers
  \<^verbatim>\<open>Satisfiable\<close> on the clause set of the empty clause alone, \<^verbatim>\<open>solve_dpll\<close> returns the
  empty assignment on that formula, and raises on a formula with the empty clause and
  a clause of two symbols.
\<close>

theorem C2_counterexample:
  "convert_to_clause_list \<lparr>symbols = [], clauses = [[]]\<rparr> = Inr [{}] \<and>
   resolution sorted_known sorted_list_of_set [{}] = Some ''Satisfiable'' \<and>
   fst (solve_dpll \<lparr>symbols = [], clauses = [[]]\<rparr> []) = Inr (Some []) \<and>
   fst (solve_dpll \<lparr>symbols = [1, 2], clauses = [[], [(1, 1), (2, 1)]]\<rparr> []) = Inl AttributeError"
proof -
  have "resolution sorted_known sorted_list_of_set [{}] = Some ''Satisfiable''" by code_simp
  moreover have "fst (solve_dpll \<lparr>symbols = [], clauses = [[]]\<rparr> []) = Inr (Some [])"
    by (simp add: solve_dpll.simps[of "\<lparr>symbols = [], clauses = [[]]\<rparr>"]
        propagate.simps[of "\<lparr>symbols = [], clauses = [[]]\<rparr>"] find_unit_clause_def)
  moreover have "fst (solve_dpll \<lparr>symbols = [1, 2], clauses = [[], [(1, 1), (2, 1)]]\<rparr> []) = Inl AttributeError"
    by (simp add: solve_dpll.simps propagate.simps find_unit_clause_def simplify_def)
  ultimately show ?thesis by (simp add: convert_to_clause_list_def symbol_to_int_def)
qed

text \<open>
  Claim C2, amended. For a formula and its converted clause list: if the formula holds
  the empty clause, \<^verbatim>\<open>dp\<close> returns UNSAT; if it holds two unit clauses of one symbol
  with opposite signs (the empty clause is derivable in one resolution step), then
  \<^verbatim>\<open>resolution\<close> returns \<^verbatim>\<open>Unsatisfiable\<close>, in every iteration order of the sets, and
  \<^verbatim>\<open>solve_dpll\<close> returns the failure signal, with any assignment passed in.
\<close>

theorem C2_contradiction_law:
  assumes "convert_to_clause_list instance = Inr clause_list"
  shows "([] \<in> set (clauses instance) \<longrightarrow> dp pick clause_list = Some False) \<and>
         ([(s, 1)] \<in> set (clauses instance) \<and> [(s, - 1)] \<in> set (clauses instance) \<and>
          set (enum (set clause_list)) = set clause_list \<and> (\<forall>c \<in> set clause_list. set (iter c) = c)
          \<longrightarrow> resolution enum iter clause_list = Some ''Unsatisfiable'' \<and>
              fst (solve_dpll instance assignment) = Inr None)"
proof (intro conjI impI)
  assume "[] \<in> set (clauses instance)"
  then show "dp pick clause_list = Some False"
    using convert_empty[OF assms] dp_empty_clause by blast
next
  assume h: "[(s, 1)] \<in> set (clauses instance) \<and> [(s, - 1)] \<in> set (clauses instance) \<and>
          set (enum (set clause_list)) = set clause_list \<and> (\<forall>c \<in> set clause_list. set (iter c) = c)"
  then show "fst (solve_dpll instance assignment) = Inr None"
    using solve_dpll_complementary_units[of s 1 _ "- 1"] by simp
  from h have u1: "[(s, 1)] \<in> set (clauses instance)" and u2: "[(s, - 1)] \<in> set (clauses instance)"
    and en: "set (enum (set clause_list)) = set clause_list"
    and it: "\<And>c. c \<in> set clause_list \<Longrightarrow> set (iter c) = c"
    by auto
  obtain i where i: "0 < i" "{i} \<in> set clause_list" "{- i} \<in> set clause_list"
    using convert_unit[OF assms u1] convert_unit[OF assms u2] by auto
  show "resolution enum iter clause_list = Some ''Unsatisfiable''"
    using resolution_units[of i clause_list enum iter] i en it[OF i(2)] it[OF i(3)] by simp
qed

theorem C2_witness:
  "dp Min [{}, {1}] = Some False \<and>
   resolution sorted_known sorted_list_of_set [{1}, {- 1}] = Some ''Unsatisfiable'' \<and>
   fst (solve_dpll \<lparr>symbols = [1], clauses = [[(1, 1)], [(1, - 1)]]\<rparr> []) = Inr None"
proof -
  have c1: "convert_to_clause_list \<lparr>symbols = [1], clauses = [[], [(1, 1)]]\<rparr> = Inr [{}, {1}]"
    by (simp add: convert_to_clause_list_def symbol_to_int_def)
  have c2: "convert_to_clause_list \<lparr>symbols = [1], clauses = [[(1, 1)], [(1, - 1)]]\<rparr> = Inr [{1}, {- 1}]"
    by (simp add: convert_to_clause_list_def symbol_to_int_def)
  have e: "set (sorted_known (set [{1}, {- 1}])) = set [{1}, {- 1}]"
    using sorted_known_units by auto
  show ?thesis
    using C2_contradiction_law[OF c1, where pick = Min]
      C2_contradiction_law[OF c2, where s = 1 and enum = sorted_known
        and iter = sorted_list_of_set and assignment = "[]"] e
    by simp
qed

subsection \<open>Claim C3\<close>

text \<open>
  Claim C3: \<^verbatim>\<open>dp\<close> terminates on every finite clause set, each step eliminating the
  chosen variable. The code does not do so on the clause list \<^verbatim>\<open>[{1, 2}, {-1, -2}]\<close>:
  the resolvent on either variable holds the other variable in both signs. Such a
  clause is in \<^verbatim>\<open>pos_clauses\<close> and in \<^verbatim>\<open>neg_clauses\<close>, it is its own resolvent with
  itself, the variable stays, and the recursive call gets the same clause list again.
  \<^verbatim>\<open>dp\<close> never returns, with the smaller variable picked first and with the larger.
\<close>

theorem C3_dp_does_not_return:
  "dp Min [{1, 2}, {- 1, - 2}] = None \<and> dp Max [{1, 2}, {- 1, - 2}] = None \<and>
   variables_of [{2, - 2}] = {2} \<and>
   resolvents_all 2 (filter (\<lambda>c. 2 \<in> c) [{2, - 2}]) (filter (\<lambda>c. - 2 \<in> c) [{2, - 2}]) []
     = Some [{2, - 2}]"
proof -
  have "({2, - 2} - {2}) \<union> ({2, - 2} - {- 2}) = {2, - 2 :: int}" by auto
  then show ?thesis
    using dp_example_diverges[of Min] dp_example_diverges[of Max] taut_step(1)[of 2]
    by simp
qed

subsection \<open>Claim C4\<close>

text \<open>
  Claim C4 fails for a formula that holds an empty clause and nothing else: there is no
  unit clause and no symbol to branch on, so \<^verbatim>\<open>solve_dpll\<close> returns the assignment it
  started with, the empty dict, and \<^verbatim>\<open>is_satisfied\<close> is false for it.
\<close>

theorem C4_counterexample:
  "fst (solve_dpll \<lparr>symbols = [], clauses = [[]]\<rparr> []) = Inr (Some []) \<and>
   \<not> is_satisfied \<lparr>symbols = [], clauses = [[]]\<rparr> []"
  by (simp add: solve_dpll.simps[of "\<lparr>symbols = [], clauses = [[]]\<rparr>"]
      propagate.simps[of "\<lparr>symbols = [], clauses = [[]]\<rparr>"] is_satisfied_def find_unit_clause_def)

text \<open>
  Claim C4, amended. On a well-formed formula (in particular without an empty clause),
  whenever \<^verbatim>\<open>solve_dpll\<close>, started with the empty assignment, returns an assignment,
  \<^verbatim>\<open>is_satisfied\<close> of the original formula and that assignment is true.
\<close>

theorem C4_assignment_valid:
  "well_formed instance \<Longrightarrow> fst (solve_dpll instance []) = Inr (Some r) \<Longrightarrow> is_satisfied instance r"
  using solve_dpll_sound[of _ "[]" r]
  by (simp add: well_formed_def fresh_def keys_def sorted_symbols_set)

theorem C4_witness:
  "is_satisfied \<lparr>symbols = [1, 2], clauses = [[(1, 1), (2, 1)], [(1, - 1), (2, - 1)]]\<rparr> [(1, 1), (2, - 1)]"
  using C4_assignment_valid[OF example1_well_formed example1_solve] .

subsection \<open>Claim C5\<close>

text \<open>
  Claim C5. On a well-formed formula (every clause a dict with at least one symbol, the
  symbol list the sorted symbols of the clauses) \<^verbatim>\<open>solve_dpll\<close> returns, with any
  assignment passed in, and never raises: the result is an \<open>Inr\<close>, the failure signal
  \<^verbatim>\<open>None\<close> or an assignment. A conflict and a \<^verbatim>\<open>None\<close> of \<^verbatim>\<open>simplify\<close> in the loop are
  \<open>Returned None\<close>; the only exception that \<open>solve_dpll\<close> can raise in the model is the
  \<open>AttributeError\<close> of a recursive call on the \<^verbatim>\<open>None\<close> of \<^verbatim>\<open>simplify\<close>, so the
  branching step never passes that \<^verbatim>\<open>None\<close> on. (\<open>solve_dpll\<close> is a total function:
  the bound of the Python interpreter on the depth of recursion is not modelled.)
\<close>

theorem C5_solve_dpll_never_raises:
  "well_formed instance \<Longrightarrow> \<exists>r. fst (solve_dpll instance assignment) = Inr r"
  by (simp add: well_formed_def solve_dpll_no_error)

theorem C5_witness:
  "well_formed \<lparr>symbols = [1, 2], clauses = [[(1, 1), (2, 1)], [(1, - 1), (2, - 1)]]\<rparr> \<and>
   (\<exists>r. fst (solve_dpll \<lparr>symbols = [1, 2], clauses = [[(1, 1), (2, 1)], [(1, - 1), (2, - 1)]]\<rparr> []) = Inr r)"
  using C5_solve_dpll_never_raises[OF example1_well_formed, of "[]"] example1_well_formed by simp

subsection \<open>Claim C6\<close>

text \<open>
  Claim C6 fails as stated: the tokens that \<^verbatim>\<open>__str__\<close> (and \<^verbatim>\<open>format\<close>) writes are
  symbol names such as \<^verbatim>\<open>x1\<close>, which the parser cannot read: \<^verbatim>\<open>int("x1")\<close> raises
  \<^verbatim>\<open>ValueError\<close>.
\<close>

theorem C6_counterexample:
  "from_dimacs [1] (declare_variables 1 Map.empty) = Inr [(1, 1)] \<and>
   clause_str [(1, 1)] = ''x1'' \<and>
   int_literals (split (clause_str [(1, 1)])) = Inl (ValueError (Invalid_literal ''x1'')) \<and>
   from_dimacs_file [''p cnf 1 1'', clause_str [(1, 1)]] = Inl (ValueError (Invalid_literal ''x1''))"
  by code_simp

text \<open>
  Claim C6, amended. For every clause the parser makes, the formatted clause splits
  into one token per symbol, and the tokens with the letter \<^verbatim>\<open>x\<close> deleted are the DIMACS
  literals of the clause; parsing these literals gives the same clause again, and
  parsing them in any other order gives a clause with the same mapping from symbol to
  sign.
\<close>

theorem C6_round_trip:
  assumes "from_dimacs literals (declare_variables nvars Map.empty) = Inr c"
  shows "int_literals (map unname (split (clause_str c))) = Inr (map literal_of c) \<and>
         from_dimacs (map literal_of c) (declare_variables nvars Map.empty) = Inr c \<and>
         (\<forall>lits. set lits = set (map literal_of c) \<longrightarrow>
            (\<exists>c'. from_dimacs lits (declare_variables nvars Map.empty) = Inr c' \<and> map_of c' = map_of c))"
  using parsed_clause[OF assms] int_literals_tokens[of c nvars]
    from_dimacs_loop_literals[of c nvars "[]"] reorder_same_mapping[of c nvars]
  by (simp add: split_clause_str from_dimacs_def)

theorem C6_witness:
  "clause_str [(1, 1), (2, - 1)] = ''x1 -x2'' \<and>
   int_literals (map unname (split (clause_str [(1, 1), (2, - 1)]))) = Inr [1, - 2] \<and>
   from_dimacs [1, - 2] (declare_variables 2 Map.empty) = Inr [(1, 1), (2, - 1)] \<and>
   (\<exists>c'. from_dimacs [- 2, 1] (declare_variables 2 Map.empty) = Inr c' \<and>
         map_of c' = map_of [(1, 1), (2, - 1)])"
proof -
  have s: "clause_str [(1, 1), (2, - 1)] = ''x1 -x2''" by code_simp
  have "set [- 2, 1] = set (map literal_of [(1, 1), (2, - 1)])" by (auto simp: literal_of_def)
  then show ?thesis using C6_round_trip[OF example_clause] s by (simp add: literal_of_def)
qed

subsection \<open>Claim C7\<close>

text \<open>
  Claim C7. \<^verbatim>\<open>simplify\<close> does what its specification says: it drops exactly the clauses
  with a literal whose symbol and sign match the assignment (\<open>survivors\<close> keeps the
  others), removes from each remaining clause exactly the symbols the assignment binds
  (\<open>reduce\<close>), returns \<^verbatim>\<open>None\<close> if and only if some clause that is not satisfied has no
  symbol left, and otherwise returns the instance of the reduced surviving clauses, in
  order, with their sorted symbols. The hypothesis is the dict invariant: the keys of
  every clause are distinct.
\<close>

theorem C7_simplify_meets_spec:
  "\<forall>c \<in> set (clauses instance). dict_inv c \<Longrightarrow>
   simplify instance assignment = simplify_spec instance assignment"
  by (rule simplify_eq_spec)

theorem C7_witness:
  "simplify_spec \<lparr>symbols = [1, 2, 3], clauses = [[(1, 1), (2, - 1)], [(2, 1), (3, 1)], [(1, - 1), (3, - 1)]]\<rparr> [(1, 1)]
     = Some \<lparr>symbols = [2, 3], clauses = [[(2, 1), (3, 1)], [(3, - 1)]]\<rparr>
   \<and> simplify_spec \<lparr>symbols = [1, 2], clauses = [[(1, 1), (2, - 1)], [(1, - 1)]]\<rparr> [(1, 1)] = None"
proof -
  have "simplify \<lparr>symbols = [1, 2, 3], clauses = [[(1, 1), (2, - 1)], [(2, 1), (3, 1)], [(1, - 1), (3, - 1)]]\<rparr> [(1, 1)]
     = Some \<lparr>symbols = [2, 3], clauses = [[(2, 1), (3, 1)], [(3, - 1)]]\<rparr>"
    by (simp add: simplify_def sorted_symbols_code)
  moreover have "simplify \<lparr>symbols = [1, 2], clauses = [[(1, 1), (2, - 1)], [(1, - 1)]]\<rparr> [(1, 1)] = None"
    by (simp add: simplify_def)
  ultimately show ?thesis
    using C7_simplify_meets_spec[of "\<lparr>symbols = [1, 2, 3], clauses = [[(1, 1), (2, - 1)], [(2, 1), (3, 1)], [(1, - 1), (3, - 1)]]\<rparr>" "[(1, 1)]"]
      C7_simplify_meets_spec[of "\<lparr>symbols = [1, 2], clauses = [[(1, 1), (2, - 1)], [(1, - 1)]]\<rparr>" "[(1, 1)]"]
    by (simp add: dict_inv_def)
qed

subsection \<open>Claim C8\<close>

text \<open>
  Claim C8 fails for the assignment: on a formula with a unit clause the loop writes the
  propagated literal into the dict the caller passed (\<^verbatim>\<open>assignment[symbol] = sign\<close>). The
  caller's dict was empty and holds \<^verbatim>\<open>x1\<close> after the call.
\<close>

theorem C8_counterexample:
  "snd (solve_dpll \<lparr>symbols = [1], clauses = [[(1, 1)]]\<rparr> []) = [(1, 1)]"
  by (simp add: solve_dpll_snd propagate.simps simplify_def find_unit_clause_def)

text \<open>
  Claim C8, amended. After a call the caller's assignment is its content before the
  call followed by the literals the unit-propagation loop of that call has added: no
  entry it had is changed or removed. When the formula has no unit clause at the call
  the caller's assignment is unchanged, whatever the branching step does. (The formula
  is a value of the model: \<^verbatim>\<open>solve_dpll\<close>, \<^verbatim>\<open>find_unit_clause\<close> and \<^verbatim>\<open>simplify\<close> write to
  no instance or clause that existed before the call.)
\<close>

theorem C8_caller_assignment:
  "prefix assignment (snd (solve_dpll instance assignment)) \<and>
   (find_unit_clause instance = None \<longrightarrow> snd (solve_dpll instance assignment) = assignment)"
  using propagate_prefix[of assignment]
  by (auto simp: solve_dpll_snd propagate.simps[of _ assignment])

theorem C8_witness:
  "find_unit_clause \<lparr>symbols = [1, 2], clauses = [[(1, 1), (2, 1)], [(1, - 1), (2, - 1)]]\<rparr> = None \<and>
   snd (solve_dpll \<lparr>symbols = [1, 2], clauses = [[(1, 1), (2, 1)], [(1, - 1), (2, - 1)]]\<rparr> [(3, 1)]) = [(3, 1)]"
  using C8_caller_assignment[of "[(3, 1)]" "\<lparr>symbols = [1, 2], clauses = [[(1, 1), (2, 1)], [(1, - 1), (2, - 1)]]\<rparr>"]
  by (simp add: find_unit_clause_def)

subsection \<open>Claim C9\<close>

text \<open>
  Claim C9 fails for the parser of resolution.py, which skips the preamble and checks
  no literal: with one variable declared it accepts the literal 5.
\<close>

theorem C9_counterexample: "dimacs [''p cnf 1 1'', ''5 0''] = Inr [{5}]"
  by code_simp

text \<open>
  Claim C9, amended to the parsers of dpll.py and dp.py. Let the lines before a clause
  line parse, with the variables \<open>1..nvars\<close> declared. If the tokens of the clause
  line are integers and \<open>l\<close> is the first of them, other than the token \<^verbatim>\<open>0\<close>, whose
  absolute value is outside \<open>1..nvars\<close>, then parsing the file fails with the
  \<^verbatim>\<open>ValueError\<close> that names the literal \<open>l\<close>, whatever lines follow.
\<close>

theorem C9_undefined_literal:
  assumes "parse_lines \<lparr>variable_map = Map.empty, self_clauses = [], self_symbols = {}\<rparr> pre = Inr st"
    and "variable_map st = declare_variables nvars Map.empty"
    and "\<not> prefix ''c'' (strip line)" "\<not> prefix ''p cnf'' (strip line)"
    and "int_literals (split (strip line)) = Inr (good @ l # rest)"
    and "\<forall>g \<in> set good. 1 \<le> abs g \<and> abs g \<le> nvars"
    and "\<not> (1 \<le> abs l \<and> abs l \<le> nvars)"
  shows "from_dimacs_file (pre @ line # post) = Inl (ValueError (Undefined_variable l)) \<and>
         dimacs_file (pre @ line # post) = Inl (ValueError (Undefined_variable l))"
  using parse_line_undefined[OF assms(2-7)] assms(1)
  by (simp add: dimacs_file_def from_dimacs_file_def parse_lines_append)

theorem C9_witness:
  "from_dimacs_file [''p cnf 2 1'', ''1 -3 0'', ''2 0''] = Inl (ValueError (Undefined_variable (- 3))) \<and>
   dimacs_file [''p cnf 2 1'', ''1 -3 0'', ''2 0''] = Inl (ValueError (Undefined_variable (- 3)))"
  using C9_undefined_literal[OF example_preamble, of 2 "''1 -3 0''" "[1]" "- 3" "[]" "[''2 0'']"]
    example_line example_line_kind
  by simp

subsection \<open>Claim C10\<close>

text \<open>
  Claim C10. Every clause of a formula that \<^verbatim>\<open>from_dimacs_file\<close> (dpll.py) or
  \<^verbatim>\<open>dimacs_file\<close> (dp.py) returns has at least one symbol, and no clause that
  \<^verbatim>\<open>dimacs\<close> (resolution.py) returns is empty. A line that is only the terminating
  \<^verbatim>\<open>0\<close> changes nothing: the parsers go on with the state they had.
\<close>

theorem C10_no_empty_clause:
  "(from_dimacs_file lines = Inr instance \<longrightarrow> (\<forall>c \<in> set (clauses instance). c \<noteq> [])) \<and>
   (dimacs_file lines = Inr instance \<longrightarrow> (\<forall>c \<in> set (clauses instance). c \<noteq> [])) \<and>
   (dimacs lines = Inr clause_list \<longrightarrow> {} \<notin> set clause_list) \<and>
   (strip raw = ''0'' \<longrightarrow> parse_line st raw = Inr st \<and>
      dimacs_loop (raw # lines) known_clauses = dimacs_loop lines known_clauses)"
proof -
  have "\<forall>c \<in> set (clauses inst). c \<noteq> []" if "from_dimacs_file lines = Inr inst" for inst
    using from_dimacs_file_well_formed[OF that] by (simp add: well_formed_def clauses_ok_def)
  moreover have "{} \<notin> set clause_list" if "dimacs lines = Inr clause_list"
    using dimacs_loop_nonempty[of lines "[]" clause_list] that by (simp add: dimacs_def)
  ultimately show ?thesis
    using parse_line_zero[of raw st] dimacs_loop_zero[of raw lines known_clauses]
    by (simp add: dimacs_file_def)
qed

theorem C10_witness:
  "from_dimacs_file [''p cnf 2 2'', ''1 2 0'', ''0'', ''-1 -2 0'']
     = Inr \<lparr>symbols = [1, 2], clauses = [[(1, 1), (2, 1)], [(1, - 1), (2, - 1)]]\<rparr> \<and>
   [] \<notin> set (clauses \<lparr>symbols = [1, 2], clauses = [[(1, 1), (2, 1)], [(1, - 1), (2, - 1)]]\<rparr>) \<and>
   dimacs [''p cnf 2 2'', ''1 2 0'', ''0'', ''-1 -2 0''] = Inr [{1, 2}, {- 2, - 1}] \<and>
   {} \<notin> set [{1, 2}, {- 2, - 1 :: int}] \<and>
   parse_line \<lparr>variable_map = Map.empty, self_clauses = [], self_symbols = {}\<rparr> ''0''
     = Inr \<lparr>variable_map = Map.empty, self_clauses = [], self_symbols = {}\<rparr>"
  using C10_no_empty_clause[of "[''p cnf 2 2'', ''1 2 0'', ''0'', ''-1 -2 0'']"
      "\<lparr>symbols = [1, 2], clauses = [[(1, 1), (2, 1)], [(1, - 1), (2, - 1)]]\<rparr>"
      "[{1, 2}, {- 2, - 1}]" "''0''"
      "\<lparr>variable_map = Map.empty, self_clauses = [], self_symbols = {}\<rparr>" "[]"]
    example1_parse example1_dimacs strip_zero
  by simp

end
